theory Spec2Isabelle
  imports Main "HOL-Library.Sublist" "HOL-Library.Multiset"
begin

section \<open>Python strings\<close>

text \<open>
  A Python \<open>str\<close> is modelled as a \<^typ>\<open>string\<close>; each \<^typ>\<open>char\<close> stands for one code
  point below 256. The helpers below are the \<open>str\<close> methods the program calls, on those
  code points.
\<close>

definition isspace :: "char \<Rightarrow> bool" where
  \<comment> \<open>\<open>str.isspace\<close> on one code point: TAB..CR, FS..US, SPACE, NEL, NBSP.\<close>
  "isspace c =
     (let n = (of_char c :: nat)
      in (9 \<le> n \<and> n \<le> 13) \<or> (28 \<le> n \<and> n \<le> 32) \<or> n = 133 \<or> n = 160)"

definition strip :: "string \<Rightarrow> string" where
  \<comment> \<open>\<open>s.strip()\<close>\<close>
  "strip s = rev (dropWhile isspace (rev (dropWhile isspace s)))"

definition lower_char :: "char \<Rightarrow> char" where
  "lower_char c =
     (let n = (of_char c :: nat)
      in if (65 \<le> n \<and> n \<le> 90) \<or> (192 \<le> n \<and> n \<le> 222 \<and> n \<noteq> 215)
         then char_of (n + 32) else c)"

definition lower :: "string \<Rightarrow> string" where
  \<comment> \<open>\<open>s.lower()\<close>\<close>
  "lower s = map lower_char s"

definition str_replace :: "char \<Rightarrow> string \<Rightarrow> string \<Rightarrow> string" where
  \<comment> \<open>\<open>s.replace(old, new)\<close> for a pattern \<open>old\<close> of one character\<close>
  "str_replace old new s = concat (map (\<lambda>c. if c = old then new else [c]) s)"

fun join :: "string \<Rightarrow> string list \<Rightarrow> string" where
  \<comment> \<open>\<open>sep.join(xs)\<close>\<close>
  "join sep [] = []"
| "join sep [x] = x"
| "join sep (x # y # ys) = x @ sep @ join sep (y # ys)"

definition digit_char :: "nat \<Rightarrow> char" where
  "digit_char d = char_of (48 + d)"

fun str_nat :: "nat \<Rightarrow> string" where
  "str_nat n = (if n < 10 then [digit_char n] else str_nat (n div 10) @ [digit_char (n mod 10)])"

declare str_nat.simps [simp del]

definition str_int :: "int \<Rightarrow> string" where
  \<comment> \<open>\<open>str(i)\<close>, also what an f-string prints for an \<open>int\<close>\<close>
  "str_int i = (if i < 0 then CHR ''-'' # str_nat (nat (- i)) else str_nat (nat i))"

section \<open>The SSML builder\<close>

text \<open>
  \<open>speed\<close> is a Python \<open>float\<close>. Floating-point arithmetic and the format
  specification \<open>+.2f\<close> are taken as parameters: the type \<open>'f\<close> of floats and a record of
  the operations \<open>speed_multiplier_to_rate\<close> uses.
\<close>

record 'f float_ops =
  fsub :: "'f \<Rightarrow> 'f \<Rightarrow> 'f"
  fmul :: "'f \<Rightarrow> 'f \<Rightarrow> 'f"
  f_1_0 :: 'f
  f_100_0 :: 'f
  format_plus_2f :: "'f \<Rightarrow> string"

definition speed_multiplier_to_rate :: "'f float_ops \<Rightarrow> 'f \<Rightarrow> string" where
  "speed_multiplier_to_rate fl speed =
     (let percentage = fmul fl (fsub fl speed (f_1_0 fl)) (f_100_0 fl)
      in format_plus_2f fl percentage @ ''%'')"

definition escape_xml_text :: "string \<Rightarrow> string" where
  "escape_xml_text v =
     str_replace (CHR 0x27) ''&apos;''
       (str_replace (CHR 0x22) ''&quot;''
         (str_replace (CHR ''>'') ''&gt;''
           (str_replace (CHR ''<'') ''&lt;''
             (str_replace (CHR ''&'') ''&amp;'' v))))"

definition build_ssml ::
  "'f float_ops \<Rightarrow> string \<Rightarrow> string \<Rightarrow> string \<Rightarrow> string \<Rightarrow> string \<Rightarrow> 'f \<Rightarrow> int \<Rightarrow> int \<Rightarrow> string"
where
  "build_ssml fl language_code region short_name text style speed pre_silence post_silence =
     (let xml_lang = language_code @ ''-'' @ region;
          rate = speed_multiplier_to_rate fl speed;
          style_wrapper_start =
            (if lower style = ''default'' then ''''
             else ''<mstts:express-as style='' @ [CHR 0x27] @ lower style @ [CHR 0x27]
                  @ '' styledegree='2'>'');
          style_wrapper_end =
            (if lower style = ''default'' then '''' else ''</mstts:express-as>'')
      in ''<speak version='1.0' xmlns='http://www.w3.org/2001/10/synthesis' ''
         @ ''xmlns:mstts='https://www.w3.org/2001/mstts' ''
         @ ''xml:lang='' @ [CHR 0x27] @ xml_lang @ [CHR 0x27] @ ''>''
         @ ''<voice name='' @ [CHR 0x27] @ short_name @ [CHR 0x27] @ ''>''
         @ style_wrapper_start
         @ ''<lang xml:lang='' @ [CHR 0x27] @ xml_lang @ [CHR 0x27] @ ''>''
         @ ''<prosody rate='' @ [CHR 0x27] @ rate @ [CHR 0x27] @ ''>''
         @ ''<mstts:silence type='Leading-exact' value='' @ [CHR 0x27]
             @ str_int pre_silence @ ''ms'' @ [CHR 0x27] @ ''/>''
         @ escape_xml_text text
         @ ''<mstts:silence type='Trailing-exact' value='' @ [CHR 0x27]
             @ str_int post_silence @ ''ms'' @ [CHR 0x27] @ ''/>''
         @ ''</prosody>''
         @ ''</lang>''
         @ style_wrapper_end
         @ ''</voice>''
         @ ''</speak>'')"

text \<open>
  The escaping table in the words of the specification: each reserved character and the
  entity that stands for it. It is compared with \<^const>\<open>escape_xml_text\<close> below.
\<close>

definition xml_entity :: "char \<Rightarrow> string" where
  "xml_entity c =
     (if c = CHR ''&'' then ''&amp;''
      else if c = CHR ''<'' then ''&lt;''
      else if c = CHR ''>'' then ''&gt;''
      else if c = CHR 0x22 then ''&quot;''
      else if c = CHR 0x27 then ''&apos;''
      else [c])"

definition entity_tails :: "string list" where
  "entity_tails = [''amp;'', ''lt;'', ''gt;'', ''quot;'', ''apos;'']"

text \<open>
  The markup around the escaped text, for stating where the text goes.
\<close>

definition ssml_before ::
  "'f float_ops \<Rightarrow> string \<Rightarrow> string \<Rightarrow> string \<Rightarrow> string \<Rightarrow> 'f \<Rightarrow> int \<Rightarrow> string"
where
  "ssml_before fl lang_code region voice sty spd pre =
     ''<speak version='1.0' xmlns='http://www.w3.org/2001/10/synthesis' ''
     @ ''xmlns:mstts='https://www.w3.org/2001/mstts' ''
     @ ''xml:lang='' @ [CHR 0x27] @ (lang_code @ ''-'' @ region) @ [CHR 0x27] @ ''>''
     @ ''<voice name='' @ [CHR 0x27] @ voice @ [CHR 0x27] @ ''>''
     @ (if lower sty = ''default'' then ''''
        else ''<mstts:express-as style='' @ [CHR 0x27] @ lower sty @ [CHR 0x27]
             @ '' styledegree='2'>'')
     @ ''<lang xml:lang='' @ [CHR 0x27] @ (lang_code @ ''-'' @ region) @ [CHR 0x27] @ ''>''
     @ ''<prosody rate='' @ [CHR 0x27] @ speed_multiplier_to_rate fl spd @ [CHR 0x27] @ ''>''
     @ ''<mstts:silence type='Leading-exact' value='' @ [CHR 0x27]
         @ str_int pre @ ''ms'' @ [CHR 0x27] @ ''/>''"

definition ssml_after :: "string \<Rightarrow> int \<Rightarrow> string" where
  "ssml_after sty post =
     ''<mstts:silence type='Trailing-exact' value='' @ [CHR 0x27]
         @ str_int post @ ''ms'' @ [CHR 0x27] @ ''/>''
     @ ''</prosody>''
     @ ''</lang>''
     @ (if lower sty = ''default'' then '''' else ''</mstts:express-as>'')
     @ ''</voice>''
     @ ''</speak>''"

section \<open>Paths and files\<close>

text \<open>
  \<open>pathlib\<close> paths in the POSIX flavour: a path is its root (empty, \<open>/\<close> or \<open>//\<close>) and
  its segments. Parsing drops empty segments and \<open>.\<close> segments; \<open>..\<close> is kept, as
  \<open>pathlib\<close> keeps it. The worker below is embedded on this flavour. On Windows
  \<open>pathlib\<close> parses, tests and joins paths by other rules; they follow in a subsection of
  their own, with the path check of the synthesis loop as it is decided there.
\<close>

fun split_on :: "char \<Rightarrow> string \<Rightarrow> string list" where
  \<comment> \<open>\<open>s.split(sep)\<close> for a separator of one character\<close>
  "split_on sep [] = [[]]"
| "split_on sep (c # cs) =
     (if c = sep then [] # split_on sep cs
      else (case split_on sep cs of [] \<Rightarrow> [[c]] | w # ws \<Rightarrow> (c # w) # ws))"

record pure_path =
  root :: string
  segs :: "string list"

definition Path :: "string \<Rightarrow> pure_path" where
  \<comment> \<open>\<open>Path(s)\<close> on POSIX; \<open>WindowsPath\<close> below is the one of Windows\<close>
  "Path s =
     \<lparr>root = (if take 1 s \<noteq> ''/'' then []
              else if take 1 (drop 1 s) \<noteq> ''/'' \<or> take 1 (drop 2 s) = ''/'' then ''/''
              else ''//''),
      segs = filter (\<lambda>x. x \<noteq> [] \<and> x \<noteq> ''.'') (split_on (CHR ''/'') s)\<rparr>"

definition is_absolute :: "pure_path \<Rightarrow> bool" where
  \<comment> \<open>on POSIX a path with a root is absolute\<close>
  "is_absolute p = (root p \<noteq> [])"

definition parts :: "pure_path \<Rightarrow> string list" where
  "parts p = (if root p \<noteq> [] then [root p] else []) @ segs p"

definition joinpath :: "pure_path \<Rightarrow> pure_path \<Rightarrow> pure_path" where
  \<comment> \<open>\<open>a / b\<close> on POSIX: an absolute right operand replaces the left one\<close>
  "joinpath a b = (if is_absolute b then b else \<lparr>root = root a, segs = segs a @ segs b\<rparr>)"

definition path_str :: "pure_path \<Rightarrow> string" where
  \<comment> \<open>\<open>str(p)\<close>\<close>
  "path_str p =
     (if root p = [] \<and> segs p = [] then ''.'' else root p @ join ''/'' (segs p))"

definition path_suffix :: "pure_path \<Rightarrow> string" where
  \<comment> \<open>\<open>p.suffix\<close>: the last dot of the final segment and what follows it, unless that dot
      is the first or the last character\<close>
  "path_suffix p =
     (let name = (if segs p = [] then [] else last (segs p));
          ext = rev (takeWhile (\<lambda>c. c \<noteq> CHR ''.'') (rev name))
      in if CHR ''.'' \<in> set name \<and> Suc (length ext) < length name \<and> ext \<noteq> []
         then CHR ''.'' # ext else [])"

subsection \<open>The Windows flavour\<close>

text \<open>
  On Windows a path is a drive, a root and segments, and both \<open>/\<close> and the backslash
  separate. The drive is a letter with its colon or a UNC share; the root is one backslash
  or empty. \<open>ntpath.splitroot\<close> and the parsing, the test \<open>is_absolute\<close>, \<open>parts\<close>,
  the join and \<open>str\<close> of \<open>pathlib\<close> are as CPython 3.12 has them. A path is absolute
  only when it has a drive and a root: a path with a root and no drive, such as
  \<open>/etc/passwd\<close>, is relative to the current drive, and joined to a path it keeps that
  path's drive and replaces all the rest.
\<close>

abbreviation BACKSLASH :: char where "BACKSLASH \<equiv> CHR 0x5C"

definition upper_char :: "char \<Rightarrow> char" where
  \<comment> \<open>\<open>str.upper\<close> on one code point below 256. The code points \<open>0xB5\<close>, \<open>0xDF\<close> and
      \<open>0xFF\<close>, whose upper case is not a code point below 256, are left as they are:
      neither they nor their upper cases are characters of \<open>unc_prefix\<close>, the one string
      an upper case is compared with.\<close>
  "upper_char c =
     (let n = (of_char c :: nat)
      in if (97 \<le> n \<and> n \<le> 122) \<or> (224 \<le> n \<and> n \<le> 254 \<and> n \<noteq> 247)
         then char_of (n - 32) else c)"

definition find_from :: "char \<Rightarrow> string \<Rightarrow> nat \<Rightarrow> nat option" where
  \<comment> \<open>\<open>s.find(c, start)\<close>, \<open>None\<close> for \<open>-1\<close>\<close>
  "find_from c s start =
     (let rest = drop start s
      in if c \<in> set rest then Some (start + length (takeWhile (\<lambda>x. x \<noteq> c) rest)) else None)"

definition unc_prefix :: string where
  "unc_prefix = [BACKSLASH, BACKSLASH, CHR ''?'', BACKSLASH] @ ''UNC'' @ [BACKSLASH]"

definition splitroot :: "string \<Rightarrow> string \<times> string \<times> string" where
  \<comment> \<open>\<open>ntpath.splitroot\<close>: the drive, the root and the rest\<close>
  "splitroot p =
     (let normp = str_replace (CHR ''/'') [BACKSLASH] p
      in if take 1 normp = [BACKSLASH]
         then if take 1 (drop 1 normp) = [BACKSLASH]
              then (let start = (if map upper_char (take 8 normp) = unc_prefix then 8 else 2)
                    in case find_from BACKSLASH normp start of
                         None \<Rightarrow> (p, [], [])
                       | Some index \<Rightarrow>
                           (case find_from BACKSLASH normp (index + 1) of
                              None \<Rightarrow> (p, [], [])
                            | Some index2 \<Rightarrow>
                                (take index2 p, take 1 (drop index2 p), drop (index2 + 1) p)))
              else ([], take 1 p, drop 1 p)
         else if take 1 (drop 1 normp) = '':''
         then if take 1 (drop 2 normp) = [BACKSLASH]
              then (take 2 p, take 1 (drop 2 p), drop 3 p)
              else (take 2 p, [], drop 2 p)
         else ([], [], p))"

record windows_path =
  win_drive :: string
  win_root :: string
  win_segs :: "string list"

definition WindowsPath :: "string \<Rightarrow> windows_path" where
  \<comment> \<open>\<open>Path(s)\<close> on Windows: \<open>_parse_path\<close>, which gives a UNC drive its root\<close>
  "WindowsPath s =
     (let path = str_replace (CHR ''/'') [BACKSLASH] s
      in case splitroot path of
           (drv, rt, rel) \<Rightarrow>
             (let drv_parts = split_on BACKSLASH drv;
                  rt = (if rt = [] \<and> take 1 drv = [BACKSLASH] \<and> last drv \<noteq> BACKSLASH
                           \<and> ((length drv_parts = 4
                                \<and> drv_parts ! 2 \<notin> {[], ''?'', ''.'', ''?.''})
                               \<or> length drv_parts = 6)
                        then [BACKSLASH] else rt)
              in \<lparr>win_drive = drv, win_root = rt,
                  win_segs = filter (\<lambda>x. x \<noteq> [] \<and> x \<noteq> ''.'') (split_on BACKSLASH rel)\<rparr>))"

definition windows_is_absolute :: "windows_path \<Rightarrow> bool" where
  "windows_is_absolute p = (win_drive p \<noteq> [] \<and> win_root p \<noteq> [])"

definition windows_parts :: "windows_path \<Rightarrow> string list" where
  "windows_parts p =
     (if win_drive p \<noteq> [] \<or> win_root p \<noteq> [] then [win_drive p @ win_root p] else [])
     @ win_segs p"

definition windows_joinpath :: "windows_path \<Rightarrow> windows_path \<Rightarrow> windows_path" where
  \<comment> \<open>\<open>a / b\<close>, by the rules of \<open>ntpath.join\<close>: a right operand with a root replaces the
      root and the segments of the left operand, and its drive only if it has a drive
      itself; one with another drive and no root replaces the left operand\<close>
  "windows_joinpath a b =
     (if win_root b \<noteq> []
      then \<lparr>win_drive = (if win_drive b \<noteq> [] \<or> win_drive a = [] then win_drive b else win_drive a),
            win_root = win_root b, win_segs = win_segs b\<rparr>
      else if win_drive b \<noteq> [] \<and> lower (win_drive b) \<noteq> lower (win_drive a)
      then b
      else \<lparr>win_drive = (if win_drive b \<noteq> [] then win_drive b else win_drive a),
            win_root = win_root a, win_segs = win_segs a @ win_segs b\<rparr>)"

definition windows_path_str :: "windows_path \<Rightarrow> string" where
  \<comment> \<open>\<open>str(p)\<close>\<close>
  "windows_path_str p =
     (if win_drive p = [] \<and> win_root p = [] \<and> win_segs p = [] then ''.''
      else win_drive p @ win_root p @ join [BACKSLASH] (win_segs p))"

subsection \<open>Files\<close>

text \<open>
  The file system is a store of files by path; a file is its content. Directories are not
  represented, so \<open>mkdir(parents=True, exist_ok=True)\<close> changes nothing and \<open>exists\<close>
  asks for a file. Operating-system failures (permissions, a full disk) are outside the
  model.
\<close>

type_synonym filesystem = "pure_path \<rightharpoonup> string"

section \<open>The csv module\<close>

text \<open>
  Python's \<open>csv\<close> module in its default dialect: delimiter \<open>,\<close>, quote character \<open>"\<close>
  doubled inside quoted fields, minimal quoting, line terminator CR LF, not strict, and a
  field limit of 131072 characters.
\<close>

abbreviation CR :: char where "CR \<equiv> CHR 0x0D"
abbreviation LF :: char where "LF \<equiv> CHR 0x0A"
abbreviation DQUOTE :: char where "DQUOTE \<equiv> CHR 0x22"
abbreviation COMMA :: char where "COMMA \<equiv> CHR '',''"

definition field_limit :: nat where
  "field_limit = 131072"

subsection \<open>Writer\<close>

definition needs_quote :: "string \<Rightarrow> bool" where
  "needs_quote f = (\<exists>c \<in> set f. c = COMMA \<or> c = DQUOTE \<or> c = CR \<or> c = LF)"

definition write_field :: "string \<Rightarrow> string" where
  "write_field f =
     (if needs_quote f then DQUOTE # str_replace DQUOTE [DQUOTE, DQUOTE] f @ [DQUOTE] else f)"

definition writerow :: "string list \<Rightarrow> string" where
  \<comment> \<open>a record of one empty field is written as a pair of quotes\<close>
  "writerow fs =
     (if fs = [[]] then [DQUOTE, DQUOTE] else join '','' (map write_field fs)) @ [CR, LF]"

subsection \<open>Reader\<close>

text \<open>
  A file opened with \<open>newline=""\<close> is iterated line by line; a line ends after LF, after
  CR LF, or after a CR that no LF follows, and keeps its ending.
\<close>

fun file_lines :: "string \<Rightarrow> string \<Rightarrow> string list" where
  \<comment> \<open>first argument: the line read so far\<close>
  "file_lines cur [] = (if cur = [] then [] else [cur])"
| "file_lines cur (c # cs) =
     (if c = LF then (cur @ [c]) # file_lines [] cs
      else if c = CR then
        (case cs of
           [] \<Rightarrow> [cur @ [c]]
         | d # ds \<Rightarrow> if d = LF then (cur @ [c, d]) # file_lines [] ds
                     else (cur @ [c]) # file_lines [] cs)
      else file_lines (cur @ [c]) cs)"

datatype parser_state =
  START_RECORD | START_FIELD | IN_FIELD | IN_QUOTED_FIELD | QUOTE_IN_QUOTED_FIELD | EAT_CRNL

record reader =
  p_state :: parser_state
  p_field :: string
  p_fields :: "string list"

definition parse_reset :: reader where
  "parse_reset = \<lparr>p_state = START_RECORD, p_field = [], p_fields = []\<rparr>"

definition parse_save_field :: "reader \<Rightarrow> reader" where
  "parse_save_field r = r\<lparr>p_fields := p_fields r @ [p_field r], p_field := []\<rparr>"

definition parse_add_char :: "reader \<Rightarrow> char \<Rightarrow> reader option" where
  \<comment> \<open>\<open>None\<close>: \<open>csv.Error\<close>, field larger than field limit\<close>
  "parse_add_char r c =
     (if length (p_field r) \<ge> field_limit then None else Some (r\<lparr>p_field := p_field r @ [c]\<rparr>))"

definition end_of_line :: "reader \<Rightarrow> char option \<Rightarrow> reader option" where
  \<comment> \<open>shared by three states: a line ending or the end-of-line signal closes the record\<close>
  "end_of_line r c =
     Some ((parse_save_field r)\<lparr>p_state := (if c = None then START_RECORD else EAT_CRNL)\<rparr>)"

definition is_newline :: "char option \<Rightarrow> bool" where
  "is_newline c = (c = Some LF \<or> c = Some CR \<or> c = None)"

definition process_start_field :: "reader \<Rightarrow> char option \<Rightarrow> reader option" where
  "process_start_field r c =
     (if is_newline c then end_of_line r c
      else if c = Some DQUOTE then Some (r\<lparr>p_state := IN_QUOTED_FIELD\<rparr>)
      else if c = Some COMMA then Some (parse_save_field r)
      else map_option (\<lambda>r'. r'\<lparr>p_state := IN_FIELD\<rparr>) (parse_add_char r (the c)))"

definition parse_process_char :: "reader \<Rightarrow> char option \<Rightarrow> reader option" where
  \<comment> \<open>the character \<open>None\<close> is the end-of-line signal sent after each line; the result
      \<open>None\<close> is \<open>csv.Error\<close>\<close>
  "parse_process_char r c =
     (case p_state r of
        START_RECORD \<Rightarrow>
          (if c = None then Some r
           else if c = Some LF \<or> c = Some CR then Some (r\<lparr>p_state := EAT_CRNL\<rparr>)
           else process_start_field (r\<lparr>p_state := START_FIELD\<rparr>) c)
      | START_FIELD \<Rightarrow> process_start_field r c
      | IN_FIELD \<Rightarrow>
          (if is_newline c then end_of_line r c
           else if c = Some COMMA then Some ((parse_save_field r)\<lparr>p_state := START_FIELD\<rparr>)
           else parse_add_char r (the c))
      | IN_QUOTED_FIELD \<Rightarrow>
          (if c = None then Some r
           else if c = Some DQUOTE then Some (r\<lparr>p_state := QUOTE_IN_QUOTED_FIELD\<rparr>)
           else parse_add_char r (the c))
      | QUOTE_IN_QUOTED_FIELD \<Rightarrow>
          (if c = Some DQUOTE
           then map_option (\<lambda>r'. r'\<lparr>p_state := IN_QUOTED_FIELD\<rparr>) (parse_add_char r DQUOTE)
           else if c = Some COMMA then Some ((parse_save_field r)\<lparr>p_state := START_FIELD\<rparr>)
           else if is_newline c then end_of_line r c
           else map_option (\<lambda>r'. r'\<lparr>p_state := IN_FIELD\<rparr>) (parse_add_char r (the c)))
      | EAT_CRNL \<Rightarrow>
          (if c = Some LF \<or> c = Some CR then Some r
           else if c = None then Some (r\<lparr>p_state := START_RECORD\<rparr>)
           else None))"

fun process_chars :: "reader \<Rightarrow> string \<Rightarrow> reader option" where
  "process_chars r [] = Some r"
| "process_chars r (c # cs) =
     (case parse_process_char r (Some c) of None \<Rightarrow> None | Some r' \<Rightarrow> process_chars r' cs)"

definition process_line :: "reader \<Rightarrow> string \<Rightarrow> reader option" where
  \<comment> \<open>the characters of one line, then the end-of-line signal\<close>
  "process_line r l =
     (case process_chars r l of None \<Rightarrow> None | Some r' \<Rightarrow> parse_process_char r' None)"

fun reader_records :: "reader \<Rightarrow> string list \<Rightarrow> string list list option" where
  \<comment> \<open>all the records of \<open>csv.reader\<close> over the lines left; a record is complete when a
      line leaves the parser in \<open>START_RECORD\<close>; at the end of the input an open field or
      an open quote gives a last record\<close>
  "reader_records r [] =
     (if p_field r \<noteq> [] \<or> p_state r = IN_QUOTED_FIELD
      then Some [p_fields (parse_save_field r)] else Some [])"
| "reader_records r (l # ls) =
     (case process_line r l of
        None \<Rightarrow> None
      | Some r' \<Rightarrow>
          if p_state r' = START_RECORD
          then map_option (\<lambda>recs. p_fields r' # recs) (reader_records parse_reset ls)
          else reader_records r' ls)"

definition csv_reader :: "string \<Rightarrow> string list list option" where
  "csv_reader content = reader_records parse_reset (file_lines [] content)"

text \<open>
  \<open>csv.DictReader\<close>: the first record gives the field names; empty records are skipped; a
  row is the dictionary of the names zipped with the record, the names beyond the record
  mapped to \<open>None\<close>. A dictionary value is an \<open>option\<close>: \<open>None\<close> both for a missing key and
  for the value \<open>None\<close>, which \<open>row.get(k) or ""\<close> treats alike.
\<close>

definition dict_row :: "string list \<Rightarrow> string list \<Rightarrow> (string \<rightharpoonup> string)" where
  "dict_row fieldnames row =
     (let d = fold (\<lambda>(k, v) m. m(k \<mapsto> v)) (zip fieldnames row) Map.empty
      in fold (\<lambda>k m. m(k := None)) (drop (length row) fieldnames) d)"

definition dict_reader :: "string \<Rightarrow> (string \<rightharpoonup> string) list option" where
  "dict_reader content =
     (case csv_reader content of
        None \<Rightarrow> None
      | Some [] \<Rightarrow> Some []
      | Some (fieldnames # rows) \<Rightarrow>
          Some (map (dict_row fieldnames) (filter (\<lambda>row. row \<noteq> []) rows)))"

section \<open>The synthesis worker\<close>

record csv_row =
  path :: string
  text_to_play :: string

datatype error = FileNotFoundError string | CsvError | RuntimeError string

text \<open>
  The state a run works on: the file system, the lines emitted on the \<open>log\<close> signal, and
  the invocations of the text-to-speech capability so far (file name and SSML of each).
\<close>

record run_state =
  files :: filesystem
  log :: "string list"
  calls :: "(string \<times> string) list"

definition emit :: "run_state \<Rightarrow> string \<Rightarrow> run_state" where
  "emit st msg = st\<lparr>log := log st @ [msg]\<rparr>"

definition exists :: "run_state \<Rightarrow> pure_path \<Rightarrow> bool" where
  "exists st p = (files st p \<noteq> None)"

definition is_file :: "run_state \<Rightarrow> pure_path \<Rightarrow> bool" where
  "is_file st p = (files st p \<noteq> None)"

definition st_size :: "run_state \<Rightarrow> pure_path \<Rightarrow> nat" where
  "st_size st p = (case files st p of None \<Rightarrow> 0 | Some content \<Rightarrow> length content)"

definition unlink :: "run_state \<Rightarrow> pure_path \<Rightarrow> run_state" where
  \<comment> \<open>\<open>p.unlink(missing_ok=True)\<close>\<close>
  "unlink st p = st\<lparr>files := (files st)(p := None)\<rparr>"

definition write_text :: "run_state \<Rightarrow> pure_path \<Rightarrow> string \<Rightarrow> run_state" where
  "write_text st p content = st\<lparr>files := (files st)(p \<mapsto> content)\<rparr>"

subsection \<open>Reading and writing rows\<close>

definition get_or_empty :: "(string \<rightharpoonup> string) \<Rightarrow> string \<Rightarrow> string" where
  \<comment> \<open>\<open>row.get(k) or ""\<close>\<close>
  "get_or_empty row k = (case row k of None \<Rightarrow> [] | Some v \<Rightarrow> v)"

fun rows_of :: "(string \<rightharpoonup> string) list \<Rightarrow> csv_row list" where
  \<comment> \<open>the loop of \<open>_read_csv_rows\<close> over the rows of the \<open>DictReader\<close>\<close>
  "rows_of [] = []"
| "rows_of (row # reader) =
     (let path_value = strip (get_or_empty row ''path'');
          text_value = strip (get_or_empty row ''text to play'')
      in if path_value = [] then rows_of reader
         else \<lparr>path = path_value, text_to_play = text_value\<rparr> # rows_of reader)"

definition read_csv_rows :: "run_state \<Rightarrow> pure_path \<Rightarrow> error + csv_row list" where
  "read_csv_rows st csv_path =
     (case files st csv_path of
        None \<Rightarrow> Inl (FileNotFoundError (path_str csv_path))
      | Some content \<Rightarrow>
          (case dict_reader content of
             None \<Rightarrow> Inl CsvError
           | Some reader \<Rightarrow> Inr (rows_of reader)))"

definition rows_text :: "csv_row list \<Rightarrow> string" where
  \<comment> \<open>what \<open>writeheader\<close> and the \<open>writerow\<close> calls of \<open>_write_rows\<close> put in the file\<close>
  "rows_text rows =
     writerow [''path'', ''text to play'']
     @ concat (map (\<lambda>row. writerow [path row, text_to_play row]) rows)"

definition write_rows :: "run_state \<Rightarrow> pure_path \<Rightarrow> csv_row list \<Rightarrow> run_state" where
  "write_rows st csv_path rows = write_text st csv_path (rows_text rows)"

subsection \<open>The worker and its collaborators\<close>

record 'f worker =
  app_root :: pure_path
  csv_file_path :: pure_path
  output_dir :: pure_path
  key :: string
  region_value :: string
  language_code :: string
  language_name :: string
  selected_region :: string
  short_name :: string
  style :: string
  speed :: 'f
  post_silence :: int
  pre_silence :: int

datatype result_reason = SynthesizingAudioCompleted | SynthesizingAudioStarted | Canceled

record 'f settings_payload =
  pl_style :: string
  pl_multiplier :: 'f
  pl_trailingSilence :: int
  pl_leadingSilence :: int

text \<open>
  What the program does not contain: floating point, the speech service and \<open>json.dumps\<close>.
  The capability \<open>speak_ssml\<close> stands for building a synthesizer on the output file and
  calling \<open>speak_ssml_async(ssml).get()\<close>: from the number of invocations made before,
  the file name, the SSML and the present content of the output file it gives the result
  (\<open>None\<close>, or the reason of the result) and the content of the output file afterwards. It
  touches no other file.
\<close>

record 'f externals =
  floats :: "'f float_ops"
  speak_ssml :: "nat \<Rightarrow> string \<Rightarrow> string \<Rightarrow> string option \<Rightarrow> result_reason option \<times> string option"
  json_dumps :: "'f settings_payload \<Rightarrow> string"

definition speak :: "'f externals \<Rightarrow> pure_path \<Rightarrow> string \<Rightarrow> run_state \<Rightarrow> result_reason option \<times> run_state" where
  "speak ex output_file ssml st =
     (case speak_ssml ex (length (calls st)) (path_str output_file) ssml (files st output_file) of
        (result, content) \<Rightarrow>
          (result, st\<lparr>files := (files st)(output_file := content),
                      calls := calls st @ [(path_str output_file, ssml)]\<rparr>))"

definition base_output_of :: "'f worker \<Rightarrow> pure_path" where
  "base_output_of w =
     joinpath (joinpath (joinpath (output_dir w) (Path (language_code w)))
                        (Path (selected_region w)))
              (Path (last (split_on (CHR ''-'') (short_name w))))"

definition last_csv_path_of :: "'f worker \<Rightarrow> pure_path" where
  "last_csv_path_of w = joinpath (joinpath (app_root w) (Path ''data'')) (Path ''lastCsvData.csv'')"

definition resolve_csv_path :: "'f worker \<Rightarrow> run_state \<Rightarrow> error + pure_path \<times> run_state" where
  "resolve_csv_path w st =
     (let csv_path = csv_file_path w
      in if \<not> exists st csv_path \<or> \<not> is_file st csv_path \<or> lower (path_suffix csv_path) \<noteq> ''.csv''
         then Inl (FileNotFoundError (''CSV file not found or invalid: '' @ path_str csv_path))
         else Inr (csv_path, emit st (''Using CSV: '' @ path_str csv_path)))"

subsection \<open>Change detection\<close>

definition last_map_of :: "csv_row list \<Rightarrow> (string \<rightharpoonup> string)" where
  \<comment> \<open>\<open>{row.path: row.text_to_play for row in last_rows}\<close>: a later row overwrites\<close>
  "last_map_of last_rows = fold (\<lambda>row m. m(path row \<mapsto> text_to_play row)) last_rows Map.empty"

definition old_file_of :: "pure_path \<Rightarrow> csv_row \<Rightarrow> pure_path" where
  "old_file_of base_output row = joinpath base_output (Path (str_replace (CHR '':'') ''_'' (path row)))"

fun diff_loop ::
  "pure_path \<Rightarrow> (string \<rightharpoonup> string) \<Rightarrow> csv_row list
   \<Rightarrow> csv_row list \<times> csv_row list \<times> run_state \<Rightarrow> csv_row list \<times> csv_row list \<times> run_state"
where
  \<comment> \<open>the loop over \<open>current_rows\<close>; the triple is \<open>changed_rows\<close>, \<open>new_rows\<close> and the state\<close>
  "diff_loop base_output last_map [] acc = acc"
| "diff_loop base_output last_map (row # rows) (changed_rows, new_rows, st) =
     (if last_map (path row) = None
      then diff_loop base_output last_map rows
             (changed_rows, new_rows @ [row], emit st (path row @ '' is a new row.''))
      else if last_map (path row) \<noteq> Some (text_to_play row)
      then (let st1 = emit st (path row @ '' text to play has changed. Removing old audio file.'');
                old_file = old_file_of base_output row;
                st2 = (if exists st1 old_file then unlink st1 old_file else st1)
            in diff_loop base_output last_map rows (changed_rows @ [row], new_rows, st2))
      else diff_loop base_output last_map rows (changed_rows, new_rows, st))"

definition select_target_rows ::
  "csv_row list \<Rightarrow> csv_row list \<Rightarrow> csv_row list \<Rightarrow> run_state \<Rightarrow> csv_row list \<times> run_state"
where
  "select_target_rows changed_rows new_rows current_rows st =
     (if changed_rows \<noteq> [] \<and> new_rows \<noteq> []
      then (changed_rows @ new_rows,
            emit st ''Changes detected in .csv file. Synthesizing new and changed rows.'')
      else if changed_rows \<noteq> []
      then (changed_rows, emit st ''Changes detected in .csv file. Synthesizing changed rows.'')
      else if new_rows \<noteq> []
      then (new_rows, emit st ''Changes detected in .csv file. Synthesizing new rows.'')
      else (current_rows,
            emit st ''No changes detected in .csv file. Only missing files will be synthesized.''))"

subsection \<open>Synthesis with retries\<close>

definition give_up :: "pure_path \<Rightarrow> string list \<times> run_state \<Rightarrow> string list \<times> run_state" where
  \<comment> \<open>the retry limit is reached: the pair is \<open>failed_outputs\<close> and the state\<close>
  "give_up output_file acc =
     (case acc of (failed_outputs, st) \<Rightarrow>
        (let st1 = unlink st output_file;
             st2 = emit st1 ''Audio synthesis failed. Retry limit reached for this file.''
         in (failed_outputs @ [path_str output_file], st2)))"

function retry_loop ::
  "'f externals \<Rightarrow> pure_path \<Rightarrow> string \<Rightarrow> nat \<Rightarrow> string list \<times> run_state \<Rightarrow> string list \<times> run_state"
where
  "retry_loop ex output_file ssml retry_count (failed_outputs, st) =
     (case speak ex output_file ssml st of
        (None, st1) \<Rightarrow>
          (let rc = retry_count + 1;
               st2 = emit st1 (''Synthesis returned no result for '' @ path_str output_file
                               @ ''. Retry count: '' @ str_nat rc)
           in if rc \<ge> 3 then give_up output_file (failed_outputs, st2)
              else retry_loop ex output_file ssml rc (failed_outputs, st2))
      | (Some reason, st1) \<Rightarrow>
          (case (if reason \<noteq> SynthesizingAudioCompleted
                 then Some (retry_count + 1,
                            emit st1 (''Synthesis failed for '' @ path_str output_file
                                      @ ''. Retry count: '' @ str_nat (retry_count + 1)))
                 else if \<not> exists st1 output_file \<or> st_size st1 output_file < 1024
                 then Some (retry_count + 1, emit st1 ''File generated is invalid. Retrying...'')
                 else None) of
             None \<Rightarrow> (failed_outputs, emit st1 ''Done'')
           | Some (rc, st2) \<Rightarrow>
               if rc \<ge> 3 then give_up output_file (failed_outputs, st2)
               else retry_loop ex output_file ssml rc (failed_outputs, st2)))"
  by pat_completeness auto
termination
  by (relation "measure (\<lambda>(ex, output_file, ssml, retry_count, acc). 3 - retry_count)")
     (auto split: if_splits)

declare retry_loop.simps [simp del]

definition synth_row ::
  "'f externals \<Rightarrow> 'f worker \<Rightarrow> pure_path \<Rightarrow> csv_row \<Rightarrow> string list \<times> run_state \<Rightarrow> string list \<times> run_state"
where
  \<comment> \<open>the body of the loop over \<open>target_rows\<close>\<close>
  "synth_row ex w base_output row acc =
     (case acc of (failed_outputs, st) \<Rightarrow>
        (let safe_relative_path = Path (str_replace (CHR '':'') ''_'' (path row))
         in if is_absolute safe_relative_path \<or> ''..'' \<in> set (parts safe_relative_path)
            then (failed_outputs, emit st (''Skipping unsafe CSV path: '' @ path row))
            else (let output_file = joinpath base_output safe_relative_path
                  in if exists st output_file
                     then (failed_outputs,
                           emit st (''File '' @ path_str output_file
                                    @ '' already exists. Skipping synthesis.''))
                     else (let st1 = emit st (''Synthesizing '' @ path_str output_file @ ''...'');
                               ssml = build_ssml (floats ex) (language_code w) (selected_region w)
                                        (short_name w) (text_to_play row) (style w) (speed w)
                                        (pre_silence w) (post_silence w)
                           in retry_loop ex output_file ssml 0 (failed_outputs, st1)))))"

definition synth_loop ::
  "'f externals \<Rightarrow> 'f worker \<Rightarrow> pure_path \<Rightarrow> csv_row list \<Rightarrow> string list \<times> run_state \<Rightarrow> string list \<times> run_state"
where
  "synth_loop ex w base_output target_rows acc = fold (synth_row ex w base_output) target_rows acc"

subsection \<open>The path check on Windows\<close>

text \<open>
  The first lines of the body of the loop over \<open>target_rows\<close> with the paths of the
  Windows flavour: the condition on which the row is skipped, and the output file of a row
  that is not skipped.
\<close>

definition windows_unsafe_path :: "csv_row \<Rightarrow> bool" where
  "windows_unsafe_path row =
     (let safe_relative_path = WindowsPath (str_replace (CHR '':'') ''_'' (path row))
      in windows_is_absolute safe_relative_path \<or> ''..'' \<in> set (windows_parts safe_relative_path))"

definition windows_output_file :: "windows_path \<Rightarrow> csv_row \<Rightarrow> windows_path" where
  "windows_output_file base_output row =
     windows_joinpath base_output (WindowsPath (str_replace (CHR '':'') ''_'' (path row)))"

subsection \<open>The run\<close>

definition failure_message :: "string list \<Rightarrow> string" where
  "failure_message failed_outputs =
     (let preview = join '', '' (take 5 failed_outputs);
          preview = (if length failed_outputs > 5 then preview @ '', ...'' else preview)
      in ''Synthesis failed for '' @ str_nat (length failed_outputs)
         @ '' file(s) after 3 retries. Examples: '' @ preview)"

definition finish ::
  "'f externals \<Rightarrow> 'f worker \<Rightarrow> pure_path \<Rightarrow> pure_path \<Rightarrow> csv_row list
   \<Rightarrow> string list \<times> run_state \<Rightarrow> error option \<times> run_state"
where
  \<comment> \<open>what follows the loop over \<open>target_rows\<close>: raise on failures, else save the rows
      and the settings\<close>
  "finish ex w base_output last_csv_path current_rows acc =
     (case acc of (failed_outputs, st) \<Rightarrow>
        if failed_outputs \<noteq> [] then (Some (RuntimeError (failure_message failed_outputs)), st)
        else (let st1 = write_rows st last_csv_path current_rows;
                  settings_payload = \<lparr>pl_style = style w, pl_multiplier = speed w,
                                      pl_trailingSilence = post_silence w,
                                      pl_leadingSilence = pre_silence w\<rparr>;
                  settings_path = joinpath base_output (Path ''settings.json'');
                  st2 = write_text st1 settings_path (json_dumps ex settings_payload)
              in (None, emit st2 (''Settings saved to '' @ path_str settings_path))))"

definition process_rows ::
  "'f externals \<Rightarrow> 'f worker \<Rightarrow> run_state
   \<Rightarrow> error \<times> run_state + csv_row list \<times> string list \<times> run_state"
where
  \<comment> \<open>\<open>_run_impl\<close> up to the end of the loop over \<open>target_rows\<close>: the exception raised
      and the state then, or \<open>current_rows\<close>, \<open>failed_outputs\<close> and the state\<close>
  "process_rows ex w st =
     (let base_output = base_output_of w
      in case resolve_csv_path w st of
           Inl e \<Rightarrow> Inl (e, st)
         | Inr (csv_path, st1) \<Rightarrow>
             (case read_csv_rows st1 csv_path of
                Inl e \<Rightarrow> Inl (e, st1)
              | Inr current_rows \<Rightarrow>
                  (let last_csv_path = last_csv_path_of w;
                       st2 = (if \<not> exists st1 last_csv_path
                              then write_rows st1 last_csv_path current_rows else st1);
                       st3 = emit st2 ''Checking for changes in .csv file from last run...''
                   in case read_csv_rows st3 last_csv_path of
                        Inl e \<Rightarrow> Inl (e, st3)
                      | Inr last_rows \<Rightarrow>
                          (case diff_loop base_output (last_map_of last_rows) current_rows
                                  ([], [], st3) of
                             (changed_rows, new_rows, st4) \<Rightarrow>
                               (case select_target_rows changed_rows new_rows current_rows st4 of
                                  (target_rows, st5) \<Rightarrow>
                                    Inr (current_rows,
                                         synth_loop ex w base_output target_rows ([], st5)))))))"

definition run_impl :: "'f externals \<Rightarrow> 'f worker \<Rightarrow> run_state \<Rightarrow> error option \<times> run_state" where
  \<comment> \<open>the result is the exception raised, if any, and the state the run leaves\<close>
  "run_impl ex w st =
     (case process_rows ex w st of
        Inl (e, st') \<Rightarrow> (Some e, st')
      | Inr (current_rows, acc) \<Rightarrow>
          finish ex w (base_output_of w) (last_csv_path_of w) current_rows acc)"

datatype signal = Done | Failed error

definition run :: "'f externals \<Rightarrow> 'f worker \<Rightarrow> run_state \<Rightarrow> signal \<times> run_state" where
  \<comment> \<open>\<open>Failed\<close> carries the exception whose traceback the program emits\<close>
  "run ex w st =
     (case run_impl ex w st of
        (None, st') \<Rightarrow> (Done, st')
      | (Some e, st') \<Rightarrow> (Failed e, st'))"

section \<open>Notions the properties are stated with\<close>

text \<open>
  The three classes of a current row against the mapping of the previous rows.
\<close>

definition is_new :: "(string \<rightharpoonup> string) \<Rightarrow> csv_row \<Rightarrow> bool" where
  "is_new last_map row = (last_map (path row) = None)"

definition is_changed :: "(string \<rightharpoonup> string) \<Rightarrow> csv_row \<Rightarrow> bool" where
  "is_changed last_map row =
     (case last_map (path row) of None \<Rightarrow> False | Some t \<Rightarrow> t \<noteq> text_to_play row)"

definition is_unchanged :: "(string \<rightharpoonup> string) \<Rightarrow> csv_row \<Rightarrow> bool" where
  "is_unchanged last_map row = (last_map (path row) = Some (text_to_play row))"

text \<open>
  A row is unsafe when its path, with \<open>:\<close> replaced by \<open>_\<close>, is absolute or has a \<open>..\<close>
  part. A path lies under the output root when it extends the root's segments by
  segments none of which is \<open>..\<close>.
\<close>

definition unsafe_path :: "csv_row \<Rightarrow> bool" where
  "unsafe_path row =
     (let p = Path (str_replace (CHR '':'') ''_'' (path row))
      in is_absolute p \<or> ''..'' \<in> set (parts p))"

definition under_root :: "pure_path \<Rightarrow> pure_path \<Rightarrow> bool" where
  "under_root base p =
     (root p = root base \<and> prefix (segs base) (segs p)
      \<and> ''..'' \<notin> set (drop (length (segs base)) (segs p)))"

text \<open>
  The same for Windows paths, whose drives and segments are compared without regard to
  case.
\<close>

definition windows_under_root :: "windows_path \<Rightarrow> windows_path \<Rightarrow> bool" where
  "windows_under_root base p =
     (lower (win_drive p) = lower (win_drive base) \<and> win_root p = win_root base
      \<and> prefix (map lower (win_segs base)) (map lower (win_segs p))
      \<and> ''..'' \<notin> set (drop (length (win_segs base)) (win_segs p)))"

text \<open>
  The retry rule in the words of the specification: an attempt fails if the capability
  returns no result, or a reason other than success, or the file is missing or smaller
  than 1024 bytes; after the last failed attempt the file is deleted and its path recorded.
  The triple is the failure list, the files and the invocations made.
\<close>

definition attempt_failed :: "result_reason option \<Rightarrow> string option \<Rightarrow> bool" where
  "attempt_failed result content =
     (result = None \<or> result \<noteq> Some SynthesizingAudioCompleted
      \<or> content = None \<or> length (the content) < 1024)"

fun spec_attempts ::
  "'f externals \<Rightarrow> pure_path \<Rightarrow> string \<Rightarrow> nat
   \<Rightarrow> string list \<times> filesystem \<times> (string \<times> string) list
   \<Rightarrow> string list \<times> filesystem \<times> (string \<times> string) list"
where
  "spec_attempts ex output_file ssml 0 (failed, fs, invocations) =
     (failed @ [path_str output_file], fs(output_file := None), invocations)"
| "spec_attempts ex output_file ssml (Suc n) (failed, fs, invocations) =
     (case speak_ssml ex (length invocations) (path_str output_file) ssml (fs output_file) of
        (result, content) \<Rightarrow>
          (let fs1 = fs(output_file := content);
               invocations1 = invocations @ [(path_str output_file, ssml)]
           in if attempt_failed result content
              then spec_attempts ex output_file ssml n (failed, fs1, invocations1)
              else (failed, fs1, invocations1)))"


definition observe :: "string list \<times> run_state \<Rightarrow> string list \<times> filesystem \<times> (string \<times> string) list" where
  "observe acc = (case acc of (failed, st) \<Rightarrow> (failed, files st, calls st))"

text \<open>
  What the reader can return, and what it cannot tell apart. A row is readable when its
  path is not empty, its path and text are stripped, and neither is longer than the field
  limit. Two file contents are whitespace variants when they parse to the same field
  names and to records whose corresponding fields are equal once stripped. A parser
  state is within the limit when no field it holds is longer than the field limit.
\<close>

definition readable_row :: "csv_row \<Rightarrow> bool" where
  "readable_row row =
     (path row \<noteq> [] \<and> strip (path row) = path row \<and> strip (text_to_play row) = text_to_play row
      \<and> length (path row) \<le> field_limit \<and> length (text_to_play row) \<le> field_limit)"

definition whitespace_variant :: "string \<Rightarrow> string \<Rightarrow> bool" where
  "whitespace_variant content1 content2 =
     (case (csv_reader content1, csv_reader content2) of
        (Some (names1 # records1), Some (names2 # records2)) \<Rightarrow>
          names1 = names2 \<and> list_all2 (list_all2 (\<lambda>a b. strip a = strip b)) records1 records2
      | _ \<Rightarrow> False)"

definition within_limit :: "reader \<Rightarrow> bool" where
  "within_limit r = (length (p_field r) \<le> field_limit \<and> (\<forall>f \<in> set (p_fields r). length f \<le> field_limit))"

definition same_path_same_text :: "csv_row list \<Rightarrow> bool" where
  "same_path_same_text rows =
     (\<forall>r1 \<in> set rows. \<forall>r2 \<in> set rows. path r1 = path r2 \<longrightarrow> text_to_play r1 = text_to_play r2)"

section \<open>A worked example\<close>

text \<open>
  A worker for the voice \<open>en-US-JennyNeural\<close>, a previous snapshot and a current CSV file
  in which \<open>a.wav\<close> has a new text, \<open>b.wav\<close> is new and \<open>c.wav\<close> is as before, and two
  speech services: one that always fails and leaves two bytes, and one that succeeds
  with 2000 bytes.
\<close>

definition example_floats :: "unit float_ops" where
  "example_floats =
     \<lparr>fsub = (\<lambda>_ _. ()), fmul = (\<lambda>_ _. ()), f_1_0 = (), f_100_0 = (),
      format_plus_2f = (\<lambda>_. ''+0.00'')\<rparr>"

definition failing_service :: "unit externals" where
  "failing_service =
     \<lparr>floats = example_floats,
      speak_ssml = (\<lambda>n filename ssml content. (Some Canceled, Some ''xx'')),
      json_dumps = (\<lambda>_. ''{}'')\<rparr>"

definition working_service :: "unit externals" where
  "working_service =
     \<lparr>floats = example_floats,
      speak_ssml = (\<lambda>n filename ssml content.
                     (Some SynthesizingAudioCompleted, Some (replicate 2000 (CHR ''x'')))),
      json_dumps = (\<lambda>_. ''{}'')\<rparr>"

definition example_worker :: "unit worker" where
  "example_worker =
     \<lparr>app_root = Path ''/app'', csv_file_path = Path ''/in/lines.csv'',
      output_dir = Path ''/out'', key = ''k'', region_value = ''westeurope'',
      language_code = ''en'', language_name = ''English'', selected_region = ''US'',
      short_name = ''en-US-JennyNeural'', style = ''Default'', speed = (),
      post_silence = 100, pre_silence = 50\<rparr>"

definition example_base :: pure_path where
  "example_base = Path ''/out/en/US/JennyNeural''"

definition example_previous :: "csv_row list" where
  "example_previous =
     [\<lparr>path = ''a.wav'', text_to_play = ''Hi''\<rparr>, \<lparr>path = ''c.wav'', text_to_play = ''Same''\<rparr>]"

definition example_current :: "csv_row list" where
  "example_current =
     [\<lparr>path = ''a.wav'', text_to_play = ''Hello''\<rparr>, \<lparr>path = ''b.wav'', text_to_play = ''New''\<rparr>,
      \<lparr>path = ''c.wav'', text_to_play = ''Same''\<rparr>]"

definition example_state :: run_state where
  "example_state =
     \<lparr>files = [Path ''/in/lines.csv'' \<mapsto> rows_text example_current,
               Path ''/app/data/lastCsvData.csv'' \<mapsto> rows_text example_previous,
               Path ''/out/en/US/JennyNeural/a.wav'' \<mapsto> replicate 2000 (CHR ''o''),
               Path ''/out/en/US/JennyNeural/c.wav'' \<mapsto> replicate 2000 (CHR ''o'')],
      log = [], calls = []\<rparr>"


text \<open>
  Rows that share a path, a padded row, and a copy of the first with blanks around one
  text.
\<close>

definition duplicate_rows :: "csv_row list" where
  "duplicate_rows =
     [\<lparr>path = ''a.wav'', text_to_play = ''x''\<rparr>, \<lparr>path = ''a.wav'', text_to_play = ''y''\<rparr>]"

definition duplicate_rows_padded :: "csv_row list" where
  "duplicate_rows_padded =
     [\<lparr>path = ''a.wav'', text_to_play = '' x ''\<rparr>, \<lparr>path = ''a.wav'', text_to_play = ''y''\<rparr>]"

definition padded_row :: csv_row where
  "padded_row = \<lparr>path = '' a.wav'', text_to_play = ''Hi''\<rparr>"

text \<open>
  Two rows that point out of the output root, their previous texts, and a file system that
  has the files they name.
\<close>

definition escaping_rows :: "csv_row list" where
  "escaping_rows =
     [\<lparr>path = ''/etc/passwd'', text_to_play = ''new''\<rparr>,
      \<lparr>path = ''../secret.wav'', text_to_play = ''new''\<rparr>]"

definition escaping_previous :: "csv_row list" where
  "escaping_previous =
     [\<lparr>path = ''/etc/passwd'', text_to_play = ''old''\<rparr>,
      \<lparr>path = ''../secret.wav'', text_to_play = ''old''\<rparr>]"

definition victim_state :: run_state where
  "victim_state =
     \<lparr>files = [\<lparr>root = ''/'', segs = [''etc'', ''passwd'']\<rparr> \<mapsto> ''root'',
               \<lparr>root = ''/'', segs = [''out'', ''en'', ''US'', ''JennyNeural'', ''..'', ''secret.wav'']\<rparr>
                 \<mapsto> ''secret''],
      log = [], calls = []\<rparr>"

text \<open>The output root of the example on a Windows drive.\<close>

definition windows_example_base :: windows_path where
  "windows_example_base = WindowsPath ''C:/out/en/US/JennyNeural''"

definition padded_header_text :: string where
  \<comment> \<open>one row under a header whose first name has a blank before it\<close>
  "padded_header_text = writerow ['' path'', ''text to play''] @ writerow [''a.wav'', ''Hi'']"

text \<open>A file system with one file.\<close>

definition only_file :: "pure_path \<Rightarrow> string \<Rightarrow> run_state" where
  "only_file p content = \<lparr>files = [p \<mapsto> content], log = [], calls = []\<rparr>"

section \<open>The reader, character by character\<close>

text \<open>
  The reader of records written over the characters of the file instead of its lines: the
  end-of-line signal comes after LF and after a CR that no LF follows. The flag says
  whether the present line has characters already. It is shown below to give the records
  of \<^const>\<open>reader_records\<close> over \<^const>\<open>file_lines\<close>.
\<close>

definition eol_step :: "reader \<Rightarrow> (string list option \<times> reader) option" where
  "eol_step r =
     (case parse_process_char r None of
        None \<Rightarrow> None
      | Some r' \<Rightarrow> if p_state r' = START_RECORD then Some (Some (p_fields r'), parse_reset)
                   else Some (None, r'))"

fun emit_rec :: "string list option \<Rightarrow> string list list option \<Rightarrow> string list list option" where
  "emit_rec None x = x"
| "emit_rec (Some f) x = map_option (\<lambda>recs. f # recs) x"

fun scan :: "bool \<Rightarrow> reader \<Rightarrow> string \<Rightarrow> string list list option" where
  "scan b r [] =
     (if b then (case eol_step r of None \<Rightarrow> None | Some (out, r2) \<Rightarrow> emit_rec out (reader_records r2 []))
      else reader_records r [])"
| "scan b r (c # cs) =
     (case parse_process_char r (Some c) of
        None \<Rightarrow> None
      | Some r1 \<Rightarrow>
          if c = LF \<or> (c = CR \<and> (case cs of [] \<Rightarrow> True | d # ds \<Rightarrow> d \<noteq> LF))
          then (case eol_step r1 of None \<Rightarrow> None | Some (out, r2) \<Rightarrow> emit_rec out (scan False r2 cs))
          else scan True r1 cs)"

section \<open>Escaping in the SSML builder\<close>

lemma str_replace_concat:
  "str_replace c s (concat (map f xs)) = concat (map (\<lambda>x. str_replace c s (f x)) xs)"
  by (induction xs) (auto simp: str_replace_def)

lemma escape_xml_text_entities: "escape_xml_text v = concat (map xml_entity v)"
  unfolding escape_xml_text_def
  apply (subst (5) str_replace_def)
  apply (simp add: str_replace_concat)
  apply (rule arg_cong[where f=concat])
  apply (rule map_cong[OF refl])
  apply (auto simp: xml_entity_def str_replace_def)
  done

lemma entities_no_raw:
  "set (concat (map xml_entity v)) \<inter> {CHR ''<'', CHR ''>'', CHR 0x22, CHR 0x27} = {}"
  by (induction v) (auto simp: xml_entity_def)

lemma entity_split:
  assumes "e @ rest = before @ CHR ''&'' # after" and "e = CHR ''&'' # t" and "CHR ''&'' \<notin> set t"
  shows "(before = [] \<and> after = t @ rest) \<or> (\<exists>before'. rest = before' @ CHR ''&'' # after)"
proof (cases before)
  case Nil
  with assms show ?thesis by simp
next
  case (Cons a before1)
  with assms have "t @ rest = before1 @ CHR ''&'' # after" by simp
  then obtain us where
    "(t = before1 @ us \<and> us @ rest = CHR ''&'' # after)
     \<or> (t @ us = before1 \<and> rest = us @ CHR ''&'' # after)"
    unfolding append_eq_append_conv2 by blast
  then show ?thesis
  proof
    assume a: "t = before1 @ us \<and> us @ rest = CHR ''&'' # after"
    show ?thesis
    proof (cases us)
      case Nil
      with a show ?thesis by auto
    next
      case (Cons u us')
      with a assms(3) show ?thesis by auto
    qed
  next
    assume "t @ us = before1 \<and> rest = us @ CHR ''&'' # after"
    then show ?thesis by blast
  qed
qed

lemma xml_entity_cases:
  "(xml_entity c = [c] \<and> c \<noteq> CHR ''&'')
   \<or> (\<exists>t \<in> set entity_tails. xml_entity c = CHR ''&'' # t \<and> CHR ''&'' \<notin> set t)"
  by (simp add: xml_entity_def entity_tails_def)

lemma entities_ampersand:
  "concat (map xml_entity v) = before @ CHR ''&'' # after
   \<Longrightarrow> \<exists>t \<in> set entity_tails. prefix t after"
proof (induction v arbitrary: before)
  case Nil
  then show ?case by simp
next
  case (Cons c v)
  let ?rest = "concat (map xml_entity v)"
  from Cons.prems have eq: "xml_entity c @ ?rest = before @ CHR ''&'' # after" by simp
  from xml_entity_cases[of c] show ?case
  proof
    assume "xml_entity c = [c] \<and> c \<noteq> CHR ''&''"
    with eq obtain before' where "?rest = before' @ CHR ''&'' # after"
      by (cases before) auto
    then show ?thesis using Cons.IH by blast
  next
    assume "\<exists>t \<in> set entity_tails. xml_entity c = CHR ''&'' # t \<and> CHR ''&'' \<notin> set t"
    then obtain t where t: "t \<in> set entity_tails" "xml_entity c = CHR ''&'' # t"
      "CHR ''&'' \<notin> set t" by blast
    from entity_split[OF eq t(2) t(3)] show ?thesis
    proof
      assume "before = [] \<and> after = t @ ?rest"
      with t(1) show ?thesis by (intro bexI[of _ t]) auto
    next
      assume "\<exists>before'. ?rest = before' @ CHR ''&'' # after"
      then show ?thesis using Cons.IH by blast
    qed
  qed
qed

lemma build_ssml_shape:
  "build_ssml fl lang_code region voice t sty spd pre post
   = ssml_before fl lang_code region voice sty spd pre @ escape_xml_text t @ ssml_after sty post"
  unfolding build_ssml_def ssml_before_def ssml_after_def Let_def
  by (simp only: append.assoc)

text \<open>
  C7.
  \<open>build_ssml\<close> puts the text into the markup only through \<open>escape_xml_text\<close>: the
  markup is a prefix and a suffix that do not depend on the text, around the escaped text.
  The five replacements, \<open>&\<close> first, give each reserved character its entity and leave the
  other characters alone; so the escaped text has no raw \<open><\<close>, \<open>>\<close>, \<open>"\<close> or \<open>'\<close>, and
  every \<open>&\<close> in it starts one of the five entities.
\<close>

theorem build_ssml_escapes_text:
  "(\<exists>before after. \<forall>t. build_ssml fl lang_code region voice t sty spd pre post
                           = before @ escape_xml_text t @ after)
   \<and> escape_xml_text v = concat (map xml_entity v)
   \<and> set (escape_xml_text v) \<inter> {CHR ''<'', CHR ''>'', CHR 0x22, CHR 0x27} = {}
   \<and> (\<forall>before after. escape_xml_text v = before @ CHR ''&'' # after
         \<longrightarrow> (\<exists>t \<in> set entity_tails. prefix t after))"
proof (intro conjI)
  show "\<exists>before after. \<forall>t. build_ssml fl lang_code region voice t sty spd pre post
                           = before @ escape_xml_text t @ after"
    by (intro exI allI) (rule build_ssml_shape)
  show "escape_xml_text v = concat (map xml_entity v)"
    by (rule escape_xml_text_entities)
  show "set (escape_xml_text v) \<inter> {CHR ''<'', CHR ''>'', CHR 0x22, CHR 0x27} = {}"
    unfolding escape_xml_text_entities by (rule entities_no_raw)
  show "\<forall>before after. escape_xml_text v = before @ CHR ''&'' # after
         \<longrightarrow> (\<exists>t \<in> set entity_tails. prefix t after)"
    unfolding escape_xml_text_entities using entities_ampersand by blast
qed

theorem build_ssml_escapes_text_witness:
  "escape_xml_text ''<&'' = [] @ CHR ''&'' # ''lt;&amp;''
   \<and> (\<exists>t \<in> set entity_tails. prefix t ''lt;&amp;'')"
proof -
  have e: "escape_xml_text ''<&'' = [] @ CHR ''&'' # ''lt;&amp;''"
    by (simp add: escape_xml_text_def str_replace_def)
  note all = build_ssml_escapes_text[where v = "''<&''", THEN conjunct2, THEN conjunct2,
      THEN conjunct2]
  from all[THEN spec, THEN spec, THEN mp, OF e] e show ?thesis by (rule_tac conjI)
qed

section \<open>Change detection\<close>

lemma fold_last_map_None:
  "fold (\<lambda>row m. m(path row \<mapsto> text_to_play row)) rows m k = None
   \<longleftrightarrow> m k = None \<and> k \<notin> path ` set rows"
  by (induction rows arbitrary: m) auto

lemma last_map_of_None: "last_map_of rows k = None \<longleftrightarrow> k \<notin> path ` set rows"
  by (simp add: last_map_of_def fold_last_map_None)

lemma diff_loop_lists:
  "diff_loop base last_map rows (changed_rows, new_rows, st) = (changed_rows', new_rows', st')
   \<Longrightarrow> changed_rows' = changed_rows @ filter (is_changed last_map) rows
     \<and> new_rows' = new_rows @ filter (is_new last_map) rows"
proof (induction rows arbitrary: changed_rows new_rows st)
  case Nil
  then show ?case by simp
next
  case (Cons row rows)
  show ?case
  proof (cases "last_map (path row)")
    case None
    with Cons.prems have "diff_loop base last_map rows
       (changed_rows, new_rows @ [row], emit st (path row @ '' is a new row.''))
       = (changed_rows', new_rows', st')" by simp
    from Cons.IH[OF this] None show ?thesis
      by (simp add: is_new_def is_changed_def)
  next
    case (Some t)
    show ?thesis
    proof (cases "t = text_to_play row")
      case True
      with Some Cons.prems have "diff_loop base last_map rows (changed_rows, new_rows, st)
         = (changed_rows', new_rows', st')" by simp
      from Cons.IH[OF this] Some True show ?thesis
        by (simp add: is_new_def is_changed_def)
    next
      case False
      with Some Cons.prems obtain st2 where "diff_loop base last_map rows
         (changed_rows @ [row], new_rows, st2) = (changed_rows', new_rows', st')"
        by (simp add: Let_def)
      from Cons.IH[OF this] Some False show ?thesis
        by (simp add: is_new_def is_changed_def)
    qed
  qed
qed

lemma exactly_one_class:
  "(is_new m r \<or> is_changed m r \<or> is_unchanged m r)
   \<and> \<not> (is_new m r \<and> is_changed m r) \<and> \<not> (is_new m r \<and> is_unchanged m r)
   \<and> \<not> (is_changed m r \<and> is_unchanged m r)"
  by (auto simp: is_new_def is_changed_def is_unchanged_def split: option.splits)

lemma mset_three_classes:
  "mset (filter (is_new m) rows) + mset (filter (is_changed m) rows)
   + mset (filter (is_unchanged m) rows) = mset rows"
proof (induction rows)
  case Nil then show ?case by simp
next
  case (Cons r rows)
  from exactly_one_class[of m r] have
    "(is_new m r \<and> \<not> is_changed m r \<and> \<not> is_unchanged m r)
     \<or> (\<not> is_new m r \<and> is_changed m r \<and> \<not> is_unchanged m r)
     \<or> (\<not> is_new m r \<and> \<not> is_changed m r \<and> is_unchanged m r)" by blast
  then show ?case using Cons by (elim disjE) simp_all
qed

text \<open>
  C3.
  The loop over the current rows puts a row in \<open>new_rows\<close> exactly when its path is no
  path of a previous row, and in \<open>changed_rows\<close> exactly when the mapping of the previous
  rows has its path with another text; it keeps the order of the rows. With the rows left
  over (path present, same text) the three groups hold every current row once, and every
  row is in exactly one of the three classes.
\<close>

theorem diff_partitions_current_rows:
  assumes "diff_loop base (last_map_of previous) current ([], [], st) = (changed_rows, new_rows, st')"
  shows "new_rows = filter (\<lambda>row. path row \<notin> path ` set previous) current
    \<and> changed_rows = filter (\<lambda>row. \<exists>t. last_map_of previous (path row) = Some t \<and> t \<noteq> text_to_play row) current
    \<and> mset new_rows + mset changed_rows
        + mset (filter (\<lambda>row. last_map_of previous (path row) = Some (text_to_play row)) current)
      = mset current
    \<and> (\<forall>row. let n = (path row \<notin> path ` set previous);
                  c = (\<exists>t. last_map_of previous (path row) = Some t \<and> t \<noteq> text_to_play row);
                  u = (last_map_of previous (path row) = Some (text_to_play row))
              in (n \<or> c \<or> u) \<and> \<not> (n \<and> c) \<and> \<not> (n \<and> u) \<and> \<not> (c \<and> u))"
proof -
  let ?m = "last_map_of previous"
  have n: "is_new ?m = (\<lambda>row. path row \<notin> path ` set previous)"
    by (rule ext) (simp add: is_new_def last_map_of_None)
  have c: "is_changed ?m = (\<lambda>row. \<exists>t. ?m (path row) = Some t \<and> t \<noteq> text_to_play row)"
    by (rule ext) (simp add: is_changed_def split: option.splits)
  have u: "is_unchanged ?m = (\<lambda>row. ?m (path row) = Some (text_to_play row))"
    by (rule ext) (simp add: is_unchanged_def)
  from diff_loop_lists[OF assms]
  have l: "changed_rows = filter (is_changed ?m) current" "new_rows = filter (is_new ?m) current"
    by simp_all
  have p: "mset new_rows + mset changed_rows + mset (filter (is_unchanged ?m) current) = mset current"
    unfolding l by (rule mset_three_classes)
  show ?thesis
    unfolding Let_def
  proof (intro conjI)
    show "new_rows = filter (\<lambda>row. path row \<notin> path ` set previous) current"
      using l(2) unfolding n .
    show "changed_rows = filter (\<lambda>row. \<exists>t. ?m (path row) = Some t \<and> t \<noteq> text_to_play row) current"
      using l(1) unfolding c .
    show "mset new_rows + mset changed_rows
        + mset (filter (\<lambda>row. ?m (path row) = Some (text_to_play row)) current) = mset current"
      using p unfolding u .
    show "\<forall>row. ((path row \<notin> path ` set previous)
               \<or> (\<exists>t. ?m (path row) = Some t \<and> t \<noteq> text_to_play row)
               \<or> (?m (path row) = Some (text_to_play row)))
            \<and> \<not> ((path row \<notin> path ` set previous)
                  \<and> (\<exists>t. ?m (path row) = Some t \<and> t \<noteq> text_to_play row))
            \<and> \<not> ((path row \<notin> path ` set previous) \<and> (?m (path row) = Some (text_to_play row)))
            \<and> \<not> ((\<exists>t. ?m (path row) = Some t \<and> t \<noteq> text_to_play row)
                  \<and> (?m (path row) = Some (text_to_play row)))"
    proof
      fix row
      show "((path row \<notin> path ` set previous)
               \<or> (\<exists>t. ?m (path row) = Some t \<and> t \<noteq> text_to_play row)
               \<or> (?m (path row) = Some (text_to_play row)))
            \<and> \<not> ((path row \<notin> path ` set previous)
                  \<and> (\<exists>t. ?m (path row) = Some t \<and> t \<noteq> text_to_play row))
            \<and> \<not> ((path row \<notin> path ` set previous) \<and> (?m (path row) = Some (text_to_play row)))
            \<and> \<not> ((\<exists>t. ?m (path row) = Some t \<and> t \<noteq> text_to_play row)
                  \<and> (?m (path row) = Some (text_to_play row)))"
        unfolding last_map_of_None[symmetric]
        by (cases "?m (path row)") simp_all
    qed
  qed
qed

theorem diff_partitions_current_rows_witness:
  "fst (diff_loop example_base (last_map_of example_previous) example_current
          ([], [], example_state)) = [\<lparr>path = ''a.wav'', text_to_play = ''Hello''\<rparr>]
   \<and> fst (snd (diff_loop example_base (last_map_of example_previous) example_current
          ([], [], example_state))) = [\<lparr>path = ''b.wav'', text_to_play = ''New''\<rparr>]"
proof -
  let ?r = "diff_loop example_base (last_map_of example_previous) example_current
              ([], [], example_state)"
  have "?r = (fst ?r, fst (snd ?r), snd (snd ?r))" by simp
  note t = diff_partitions_current_rows[OF this]
  have n: "filter (\<lambda>row. path row \<notin> path ` set example_previous) example_current
           = [\<lparr>path = ''b.wav'', text_to_play = ''New''\<rparr>]"
    by (simp add: example_previous_def example_current_def)
  have c: "filter (\<lambda>row. \<exists>t. last_map_of example_previous (path row) = Some t
                              \<and> t \<noteq> text_to_play row) example_current
           = [\<lparr>path = ''a.wav'', text_to_play = ''Hello''\<rparr>]"
    by (simp add: example_previous_def example_current_def last_map_of_def)
  from t[THEN conjunct1] t[THEN conjunct2, THEN conjunct1] show ?thesis
    unfolding n c by (intro conjI)
qed

section \<open>Synthesis with retries\<close>

lemma speak_observe:
  "speak ex out ssml st = (result, st1) \<Longrightarrow>
   speak_ssml ex (length (calls st)) (path_str out) ssml (files st out) = (result, files st1 out)
   \<and> files st1 = (files st)(out := files st1 out)
   \<and> calls st1 = calls st @ [(path_str out, ssml)]"
  by (auto simp: speak_def split: prod.splits)

lemma observe_give_up:
  "observe (give_up out (fo, emit st msg)) = (fo @ [path_str out], (files st)(out := None), calls st)"
  by (simp add: give_up_def observe_def emit_def unlink_def Let_def)

lemma retry_loop_refines:
  "retry_count < 3 \<Longrightarrow>
   observe (retry_loop ex out ssml retry_count (fo, st))
   = spec_attempts ex out ssml (3 - retry_count) (fo, files st, calls st)"
proof (induction ex out ssml retry_count "(fo, st)" arbitrary: st rule: retry_loop.induct)
  case (1 ex out ssml retry_count st)
  obtain result st1 where sp: "speak ex out ssml st = (result, st1)" by (cases "speak ex out ssml st")
  note ob = speak_observe[OF sp]
  from 1(3) obtain n where n: "3 - retry_count = Suc n" "n = 3 - (retry_count + 1)"
    by (cases "3 - retry_count") auto
  show ?case
  proof (cases result)
    case None
    then have af: "attempt_failed result (files st1 out)" by (simp add: attempt_failed_def)
    show ?thesis
    proof (cases "retry_count + 1 \<ge> 3")
      case True
      then have "n = 0" using n by simp
      then show ?thesis using sp None True ob af n(1)
        by (subst retry_loop.simps) (simp add: observe_give_up Let_def)
    next
      case False
      then have lt: "retry_count + 1 < 3" by simp
      let ?st2 = "emit st1 (''Synthesis returned no result for '' @ path_str out
                               @ ''. Retry count: '' @ str_nat (retry_count + 1))"
      have ih: "observe (retry_loop ex out ssml (retry_count + 1) (fo, ?st2))
          = spec_attempts ex out ssml (3 - (retry_count + 1)) (fo, files ?st2, calls ?st2)"
        using 1(1)[OF sp[symmetric] None refl refl False lt] by simp
      show ?thesis using sp None False ob af n ih
        by (subst retry_loop.simps) (simp add: Let_def emit_def)
    qed
  next
    case (Some reason)
    let ?v = "(if reason \<noteq> SynthesizingAudioCompleted
                 then Some (retry_count + 1,
                            emit st1 (''Synthesis failed for '' @ path_str out
                                      @ ''. Retry count: '' @ str_nat (retry_count + 1)))
                 else if \<not> exists st1 out \<or> st_size st1 out < 1024
                 then Some (retry_count + 1, emit st1 ''File generated is invalid. Retrying...'')
                 else None)"
    have unfold: "retry_loop ex out ssml retry_count (fo, st) =
        (case ?v of None \<Rightarrow> (fo, emit st1 ''Done'')
         | Some (rc, st2) \<Rightarrow> if rc \<ge> 3 then give_up out (fo, st2)
                              else retry_loop ex out ssml rc (fo, st2))"
      using sp Some by (subst retry_loop.simps) simp
    show ?thesis
    proof (cases ?v)
      case None
      then have ok: "reason = SynthesizingAudioCompleted" "exists st1 out" "\<not> st_size st1 out < 1024"
        by (auto split: if_splits)
      then have "\<not> attempt_failed result (files st1 out)"
        using Some by (auto simp: attempt_failed_def exists_def st_size_def)
      then show ?thesis using ob n None unfolding unfold
        by (simp add: observe_def emit_def)
    next
      case v: (Some p)
      then obtain msg where p: "p = (retry_count + 1, emit st1 msg)"
        by (auto split: if_splits)
      have af: "attempt_failed result (files st1 out)"
        using v Some by (auto simp: attempt_failed_def exists_def st_size_def split: if_splits option.splits)
      show ?thesis
      proof (cases "retry_count + 1 \<ge> 3")
        case True
        then have "n = 0" using n by simp
        then show ?thesis using v p True ob af n(1) unfolding unfold
          by (simp add: observe_give_up)
      next
        case False
        then have lt: "retry_count + 1 < 3" by simp
        have ih: "observe (retry_loop ex out ssml (retry_count + 1) (fo, emit st1 msg))
          = spec_attempts ex out ssml (3 - (retry_count + 1)) (fo, files (emit st1 msg), calls (emit st1 msg))"
          using 1(2)[OF sp[symmetric] Some v[unfolded p] refl False lt] by simp
        show ?thesis using v p False ob af n ih unfolding unfold
          by (simp add: emit_def)
      qed
    qed
  qed
qed

lemma spec_attempts_frame:
  "spec_attempts ex out ssml n (fo, fs, cs) = (fo', fs', cs') \<Longrightarrow>
   (\<exists>k\<le>n. cs' = cs @ replicate k (path_str out, ssml) \<and> (n > 0 \<longrightarrow> k > 0))
   \<and> (\<forall>p. p \<noteq> out \<longrightarrow> fs' p = fs p)
   \<and> (fo' = fo \<or> fo' = fo @ [path_str out])"
proof (induction n arbitrary: fs cs)
  case 0
  then show ?case by auto
next
  case (Suc n)
  obtain result content where sp:
    "speak_ssml ex (length cs) (path_str out) ssml (fs out) = (result, content)"
    by (cases "speak_ssml ex (length cs) (path_str out) ssml (fs out)")
  show ?case
  proof (cases "attempt_failed result content")
    case True
    with Suc.prems sp have "spec_attempts ex out ssml n
        (fo, fs(out := content), cs @ [(path_str out, ssml)]) = (fo', fs', cs')"
      by (simp add: Let_def)
    from Suc.IH[OF this] obtain k where k: "k \<le> n"
      "cs' = (cs @ [(path_str out, ssml)]) @ replicate k (path_str out, ssml)"
      and rest: "\<forall>p. p \<noteq> out \<longrightarrow> fs' p = (fs(out := content)) p"
        "fo' = fo \<or> fo' = fo @ [path_str out]"
      by blast
    have "cs' = cs @ replicate (Suc k) (path_str out, ssml)" using k(2) by simp
    with k(1) rest show ?thesis
      by (intro conjI exI[of _ "Suc k"]) auto
  next
    case False
    with Suc.prems sp have "fo' = fo" "fs' = fs(out := content)" "cs' = cs @ replicate 1 (path_str out, ssml)"
      by (simp_all add: Let_def)
    then show ?thesis by (intro conjI exI[of _ 1]) auto
  qed
qed

lemma spec_attempts_all_fail:
  "\<forall>k<n. \<forall>cur. case speak_ssml ex (length cs + k) (path_str out) ssml cur of
                    (result, content) \<Rightarrow> attempt_failed result content \<Longrightarrow>
   \<exists>fs'. spec_attempts ex out ssml n (fo, fs, cs)
          = (fo @ [path_str out], fs', cs @ replicate n (path_str out, ssml)) \<and> fs' out = None"
proof (induction n arbitrary: fs cs)
  case 0
  then show ?case by simp
next
  case (Suc n)
  obtain result content where sp:
    "speak_ssml ex (length cs) (path_str out) ssml (fs out) = (result, content)"
    by (cases "speak_ssml ex (length cs) (path_str out) ssml (fs out)")
  from Suc.prems[rule_format, of 0 "fs out"] sp have af: "attempt_failed result content" by simp
  have "\<forall>k<n. \<forall>cur. case speak_ssml ex (length (cs @ [(path_str out, ssml)]) + k) (path_str out) ssml cur of
                    (result, content) \<Rightarrow> attempt_failed result content"
  proof (intro allI impI)
    fix k cur assume "k < n"
    then have "Suc k < Suc n" by simp
    from Suc.prems[rule_format, OF this, of cur]
    show "case speak_ssml ex (length (cs @ [(path_str out, ssml)]) + k) (path_str out) ssml cur of
                    (result, content) \<Rightarrow> attempt_failed result content" by simp
  qed
  from Suc.IH[OF this, of "fs(out := content)"] obtain fs' where
    "spec_attempts ex out ssml n (fo, fs(out := content), cs @ [(path_str out, ssml)])
     = (fo @ [path_str out], fs', (cs @ [(path_str out, ssml)]) @ replicate n (path_str out, ssml))"
    "fs' out = None" by blast
  then show ?case using sp af by (simp add: Let_def replicate_app_Cons_same)
qed

lemma unsafe_path_old_file:
  "\<not> unsafe_path row \<Longrightarrow> under_root base (old_file_of base row)"
  by (auto simp: unsafe_path_def under_root_def old_file_of_def joinpath_def Let_def parts_def is_absolute_def)

lemma synth_row_unsafe:
  "unsafe_path row \<Longrightarrow>
   synth_row ex w base row (fo, st) = (fo, emit st (''Skipping unsafe CSV path: '' @ path row))"
  by (simp add: synth_row_def unsafe_path_def Let_def)

lemma synth_row_exists:
  "\<not> unsafe_path row \<Longrightarrow> exists st (old_file_of base row) \<Longrightarrow>
   synth_row ex w base row (fo, st)
   = (fo, emit st (''File '' @ path_str (old_file_of base row) @ '' already exists. Skipping synthesis.''))"
  by (simp add: synth_row_def unsafe_path_def old_file_of_def Let_def)

lemma synth_row_missing:
  "\<not> unsafe_path row \<Longrightarrow> \<not> exists st (old_file_of base row) \<Longrightarrow>
   synth_row ex w base row (fo, st)
   = retry_loop ex (old_file_of base row)
       (build_ssml (floats ex) (language_code w) (selected_region w) (short_name w)
          (text_to_play row) (style w) (speed w) (pre_silence w) (post_silence w))
       0 (fo, emit st (''Synthesizing '' @ path_str (old_file_of base row) @ ''...''))"
  by (simp add: synth_row_def unsafe_path_def old_file_of_def Let_def)

lemma synth_row_frame:
  assumes "synth_row ex w base row (fo, st) = (fo', st')"
  shows "(\<forall>p. p \<noteq> old_file_of base row \<or> unsafe_path row \<or> exists st p \<longrightarrow> files st' p = files st p)"
proof (cases "unsafe_path row \<or> exists st (old_file_of base row)")
  case True
  show ?thesis
  proof (cases "unsafe_path row")
    case u: True
    with assms show ?thesis by (auto simp: synth_row_unsafe emit_def)
  next
    case u: False
    with True assms show ?thesis by (auto simp: synth_row_exists emit_def)
  qed
next
  case False
  let ?out = "old_file_of base row"
  from False have a: "\<not> unsafe_path row" "\<not> exists st ?out" by auto
  obtain ssml msg where r: "synth_row ex w base row (fo, st) = retry_loop ex ?out ssml 0 (fo, emit st msg)"
    using synth_row_missing[OF a] by blast
  have "observe (fo', st') = spec_attempts ex ?out ssml 3 (fo, files (emit st msg), calls (emit st msg))"
    using retry_loop_refines[of 0 ex ?out ssml fo "emit st msg"] r assms by simp
  then have "spec_attempts ex ?out ssml 3 (fo, files st, calls st) = (fo', files st', calls st')"
    by (simp add: observe_def emit_def)
  from spec_attempts_frame[OF this] a show ?thesis by auto
qed
lemma synth_loop_Cons:
  "synth_loop ex w base (row # rest) acc = synth_loop ex w base rest (synth_row ex w base row acc)"
  by (simp add: synth_loop_def)

text \<open>
  C2.
  For a safe row whose destination file does not exist, the loop makes the attempts of the
  retry rule as the specification words it (\<open>spec_attempts\<close>, three attempts, each failed
  as \<open>attempt_failed\<close> says): what it leaves in the failure list, in the files and in the
  invocations is the same. So it invokes the capability at least once and at most three
  times; if every one of the three invocations fails, whatever the file held, there are
  exactly three, the destination file is absent afterwards and its path is appended to the
  failure list; and the loop goes on with the remaining rows.
\<close>

theorem retry_exhaustion:
  assumes "\<not> unsafe_path row" and "\<not> exists st (old_file_of base row)"
  shows "case synth_row ex w base row (failed, st) of
     (failed', st') \<Rightarrow>
       (let output_file = old_file_of base row;
            ssml = build_ssml (floats ex) (language_code w) (selected_region w) (short_name w)
                     (text_to_play row) (style w) (speed w) (pre_silence w) (post_silence w)
        in observe (failed', st') = spec_attempts ex output_file ssml 3 (failed, files st, calls st)
           \<and> (\<exists>k. 1 \<le> k \<and> k \<le> 3 \<and> calls st' = calls st @ replicate k (path_str output_file, ssml))
           \<and> ((\<forall>k<3. \<forall>cur. case speak_ssml ex (length (calls st) + k) (path_str output_file) ssml cur of
                              (result, content) \<Rightarrow> attempt_failed result content)
                \<longrightarrow> calls st' = calls st @ replicate 3 (path_str output_file, ssml)
                    \<and> files st' output_file = None
                    \<and> failed' = failed @ [path_str output_file])
           \<and> synth_loop ex w base (row # rest) (failed, st) = synth_loop ex w base rest (failed', st'))"
proof -
  let ?out = "old_file_of base row"
  let ?ssml = "build_ssml (floats ex) (language_code w) (selected_region w) (short_name w)
                     (text_to_play row) (style w) (speed w) (pre_silence w) (post_silence w)"
  let ?st1 = "emit st (''Synthesizing '' @ path_str ?out @ ''...'')"
  obtain failed' st' where r: "synth_row ex w base row (failed, st) = (failed', st')"
    by (cases "synth_row ex w base row (failed, st)")
  have "retry_loop ex ?out ?ssml 0 (failed, ?st1) = (failed', st')"
    using synth_row_missing[OF assms, of ex w failed] r by simp
  with retry_loop_refines[of 0 ex ?out ?ssml failed ?st1]
  have ob: "observe (failed', st') = spec_attempts ex ?out ?ssml 3 (failed, files st, calls st)"
    by (simp add: emit_def)
  then have sp: "spec_attempts ex ?out ?ssml 3 (failed, files st, calls st) = (failed', files st', calls st')"
    by (simp add: observe_def)
  from spec_attempts_frame[OF sp]
  have k: "\<exists>k. 1 \<le> k \<and> k \<le> 3 \<and> calls st' = calls st @ replicate k (path_str ?out, ?ssml)"
    by (metis One_nat_def Suc_leI zero_less_numeral)
  have af: "(\<forall>k<3. \<forall>cur. case speak_ssml ex (length (calls st) + k) (path_str ?out) ?ssml cur of
                              (result, content) \<Rightarrow> attempt_failed result content)
                \<longrightarrow> calls st' = calls st @ replicate 3 (path_str ?out, ?ssml)
                    \<and> files st' ?out = None
                    \<and> failed' = failed @ [path_str ?out]"
  proof
    assume "\<forall>k<3. \<forall>cur. case speak_ssml ex (length (calls st) + k) (path_str ?out) ?ssml cur of
                              (result, content) \<Rightarrow> attempt_failed result content"
    from spec_attempts_all_fail[OF this, of failed "files st"] sp
    show "calls st' = calls st @ replicate 3 (path_str ?out, ?ssml)
                    \<and> files st' ?out = None
                    \<and> failed' = failed @ [path_str ?out]" by auto
  qed
  have c: "synth_loop ex w base (row # rest) (failed, st) = synth_loop ex w base rest (failed', st')"
    by (simp add: synth_loop_Cons r)
  show ?thesis unfolding r Let_def prod.case using ob k af c by (intro conjI)
qed


lemma example_paths:
  "old_file_of example_base \<lparr>path = ''b.wav'', text_to_play = ''New''\<rparr>
     = \<lparr>root = ''/'', segs = [''out'', ''en'', ''US'', ''JennyNeural'', ''b.wav'']\<rparr>"
  "old_file_of example_base \<lparr>path = ''a.wav'', text_to_play = ''Hello''\<rparr>
     = \<lparr>root = ''/'', segs = [''out'', ''en'', ''US'', ''JennyNeural'', ''a.wav'']\<rparr>"
  "Path ''/in/lines.csv'' = \<lparr>root = ''/'', segs = [''in'', ''lines.csv'']\<rparr>"
  "Path ''/app/data/lastCsvData.csv'' = \<lparr>root = ''/'', segs = [''app'', ''data'', ''lastCsvData.csv'']\<rparr>"
  "Path ''/out/en/US/JennyNeural/a.wav''
     = \<lparr>root = ''/'', segs = [''out'', ''en'', ''US'', ''JennyNeural'', ''a.wav'']\<rparr>"
  "Path ''/out/en/US/JennyNeural/c.wav''
     = \<lparr>root = ''/'', segs = [''out'', ''en'', ''US'', ''JennyNeural'', ''c.wav'']\<rparr>"
  by (simp_all add: old_file_of_def example_base_def Path_def joinpath_def is_absolute_def
      str_replace_def)

lemma example_base_eq:
  "example_base = \<lparr>root = ''/'', segs = [''out'', ''en'', ''US'', ''JennyNeural'']\<rparr>"
  by (simp add: example_base_def Path_def)

theorem retry_exhaustion_witness:
  "\<not> unsafe_path \<lparr>path = ''b.wav'', text_to_play = ''New''\<rparr>
   \<and> \<not> exists example_state (old_file_of example_base \<lparr>path = ''b.wav'', text_to_play = ''New''\<rparr>)
   \<and> fst (synth_row failing_service example_worker example_base
             \<lparr>path = ''b.wav'', text_to_play = ''New''\<rparr> ([], example_state))
       = [''/out/en/US/JennyNeural/b.wav'']"
proof -
  let ?row = "\<lparr>path = ''b.wav'', text_to_play = ''New''\<rparr>"
  have h1: "\<not> unsafe_path ?row"
    by (simp add: unsafe_path_def Path_def str_replace_def is_absolute_def parts_def)
  have h2: "\<not> exists example_state (old_file_of example_base ?row)"
    by (simp add: exists_def example_state_def example_paths)
  obtain failed' st' where r:
    "synth_row failing_service example_worker example_base ?row ([], example_state) = (failed', st')"
    by (cases "synth_row failing_service example_worker example_base ?row ([], example_state)")
  note t = retry_exhaustion[OF h1 h2, of failing_service example_worker "[]" "[]",
      unfolded r Let_def prod.case, THEN conjunct2, THEN conjunct2, THEN conjunct1]
  have "failed' = [] @ [path_str (old_file_of example_base ?row)]"
    by (rule t[THEN mp, THEN conjunct2, THEN conjunct2])
       (simp add: failing_service_def attempt_failed_def)
  then have "failed' = [''/out/en/US/JennyNeural/b.wav'']"
    by (simp add: example_paths path_str_def)
  with h1 h2 r show ?thesis by simp
qed

section \<open>Reading back what the writer wrote\<close>

lemma reader_records_Cons:
  "reader_records r (l # ls) =
     (case process_chars r l of None \<Rightarrow> None
      | Some r1 \<Rightarrow> (case eol_step r1 of None \<Rightarrow> None | Some (out, r2) \<Rightarrow> emit_rec out (reader_records r2 ls)))"
  by (simp add: process_line_def eol_step_def split: option.splits)

lemma process_chars_append:
  "process_chars r (xs @ ys) = (case process_chars r xs of None \<Rightarrow> None | Some r' \<Rightarrow> process_chars r' ys)"
  by (induction xs arbitrary: r) (auto split: option.splits)

lemma reader_records_fail:
  "process_chars r0 cur = None \<Longrightarrow> reader_records r0 (file_lines cur content) = None"
proof (induction cur content rule: file_lines.induct)
  case (1 cur)
  then have "cur \<noteq> []" by auto
  with 1 show ?case by (simp add: reader_records_Cons del: reader_records.simps(2))
next
  case (2 cur c cs)
  have ext: "\<And>xs. process_chars r0 (cur @ xs) = None"
    using 2(5) by (simp add: process_chars_append)
  have first: "\<And>xs ls. reader_records r0 ((cur @ xs) # ls) = None"
    unfolding reader_records_Cons ext by simp
  have "(\<exists>ls. file_lines cur (c # cs) = (cur @ [c]) # ls)
      \<or> (\<exists>ls. file_lines cur (c # cs) = (cur @ [c, LF]) # ls)
      \<or> (c \<noteq> LF \<and> c \<noteq> CR \<and> file_lines cur (c # cs) = file_lines (cur @ [c]) cs)"
    by (cases cs) auto
  then show ?case
  proof (elim disjE exE conjE)
    fix ls assume "file_lines cur (c # cs) = (cur @ [c]) # ls"
    then show ?thesis using first by simp
  next
    fix ls assume "file_lines cur (c # cs) = (cur @ [c, LF]) # ls"
    then show ?thesis using first by simp
  next
    assume c: "c \<noteq> LF" "c \<noteq> CR" "file_lines cur (c # cs) = file_lines (cur @ [c]) cs"
    then show ?thesis using 2(4)[OF c(1,2) ext] by simp
  qed
qed

lemma scan_eq:
  "process_chars r0 cur = Some r \<Longrightarrow> reader_records r0 (file_lines cur content) = scan (cur \<noteq> []) r content"
proof (induction cur content arbitrary: r0 r rule: file_lines.induct)
  case (1 cur)
  then show ?case
    by (auto simp: reader_records_Cons simp del: reader_records.simps(2) split: option.splits)
next
  case (2 cur c cs)
  have pc: "process_chars r0 (cur @ [c]) = parse_process_char r (Some c)"
    using 2(5) by (simp add: process_chars_append split: option.splits)
  have fresh: "\<And>r2. process_chars r2 [] = Some r2" by simp
  show ?case
  proof (cases "c = LF")
    case True
    show ?thesis using True pc 2(1)[OF True fresh]
      by (simp add: reader_records_Cons del: reader_records.simps(2) split: option.splits)
  next
    case notLF: False
    show ?thesis
    proof (cases "c = CR")
      case True
      show ?thesis
      proof (cases cs)
        case Nil
        then show ?thesis using True pc
          by (simp add: reader_records_Cons del: reader_records.simps(2) split: option.splits)
      next
        case (Cons d ds)
        show ?thesis
        proof (cases "d = LF")
          case dLF: True
          have pc2: "process_chars r0 (cur @ [c, d]) =
                (case parse_process_char r (Some c) of None \<Rightarrow> None | Some r1 \<Rightarrow> parse_process_char r1 (Some d))"
            using 2(5) by (simp add: process_chars_append split: option.splits)
          show ?thesis using True Cons dLF pc2 2(2)[OF notLF True Cons dLF fresh]
            by (simp add: reader_records_Cons del: reader_records.simps(2) split: option.splits)
        next
          case dn: False
          have fl: "file_lines cur (c # cs) = (cur @ [c]) # file_lines [] cs"
            using True Cons dn by simp
          have sc: "scan (cur \<noteq> []) r (c # cs) =
              (case parse_process_char r (Some c) of None \<Rightarrow> None
               | Some r1 \<Rightarrow> (case eol_step r1 of None \<Rightarrow> None
                             | Some (out, r2) \<Rightarrow> emit_rec out (scan False r2 cs)))"
            using True Cons dn by (simp split: option.splits)
          show ?thesis unfolding fl sc reader_records_Cons pc
            using 2(3)[OF notLF True Cons dn fresh]
            by (simp del: reader_records.simps(2) file_lines.simps scan.simps split: option.splits)
        qed
      qed
    next
      case False
      show ?thesis
      proof (cases "parse_process_char r (Some c)")
        case None
        have "process_chars r0 (cur @ [c]) = None" using pc None by simp
        from reader_records_fail[OF this, of cs] None notLF False show ?thesis by simp
      next
        case (Some r1)
        then have "process_chars r0 (cur @ [c]) = Some r1" using pc by simp
        from 2(4)[OF notLF False this] Some notLF False show ?thesis by simp
      qed
    qed
  qed
qed

lemma scan_flag: "cs \<noteq> [] \<Longrightarrow> scan b r cs = scan b' r cs"
  by (cases cs) simp_all

lemmas ppc_defs = parse_process_char_def process_start_field_def parse_add_char_def
  parse_save_field_def end_of_line_def is_newline_def eol_step_def

lemma scan_quoted_char:
  assumes "c \<noteq> DQUOTE" "length f < field_limit" "cs \<noteq> []"
  shows "scan b \<lparr>p_state = IN_QUOTED_FIELD, p_field = f, p_fields = fs\<rparr> (c # cs)
       = scan True \<lparr>p_state = IN_QUOTED_FIELD, p_field = f @ [c], p_fields = fs\<rparr> cs"
  using assms scan_flag[OF assms(3), of False _ True]
  by (simp add: ppc_defs)

lemma scan_quoted_quote:
  assumes "length f < field_limit"
  shows "scan b \<lparr>p_state = IN_QUOTED_FIELD, p_field = f, p_fields = fs\<rparr> (DQUOTE # DQUOTE # cs)
       = scan True \<lparr>p_state = IN_QUOTED_FIELD, p_field = f @ [DQUOTE], p_fields = fs\<rparr> cs"
  using assms by (simp add: ppc_defs)

lemma scan_quoted_content:
  "length f + length x \<le> field_limit \<Longrightarrow>
   scan b \<lparr>p_state = IN_QUOTED_FIELD, p_field = f, p_fields = fs\<rparr>
     (str_replace DQUOTE [DQUOTE, DQUOTE] x @ DQUOTE # rest)
   = scan True \<lparr>p_state = QUOTE_IN_QUOTED_FIELD, p_field = f @ x, p_fields = fs\<rparr> rest"
proof (induction x arbitrary: b f)
  case Nil
  then show ?case by (simp add: str_replace_def ppc_defs)
next
  case (Cons c x)
  have lt: "length f < field_limit" and le: "length (f @ [c]) + length x \<le> field_limit"
    using Cons.prems by simp_all
  have sr: "str_replace DQUOTE [DQUOTE, DQUOTE] (c # x)
            = (if c = DQUOTE then [DQUOTE, DQUOTE] else [c]) @ str_replace DQUOTE [DQUOTE, DQUOTE] x"
    by (simp add: str_replace_def)
  show ?case
  proof (cases "c = DQUOTE")
    case True
    show ?thesis unfolding sr using True scan_quoted_quote[OF lt] Cons.IH[OF le] by simp
  next
    case False
    show ?thesis unfolding sr using False scan_quoted_char[OF False lt] Cons.IH[OF le] by simp
  qed
qed

lemma scan_plain_content:
  "\<not> needs_quote x \<Longrightarrow> length f + length x \<le> field_limit \<Longrightarrow>
   scan b \<lparr>p_state = IN_FIELD, p_field = f, p_fields = fs\<rparr> (x @ rest)
   = scan (b \<or> x \<noteq> []) \<lparr>p_state = IN_FIELD, p_field = f @ x, p_fields = fs\<rparr> rest"
proof (induction x arbitrary: b f)
  case Nil
  then show ?case by simp
next
  case (Cons c x)
  have c: "c \<noteq> COMMA" "c \<noteq> DQUOTE" "c \<noteq> CR" "c \<noteq> LF" and nq: "\<not> needs_quote x"
    using Cons.prems(1) by (auto simp: needs_quote_def)
  have lt: "length f < field_limit" and le: "length (f @ [c]) + length x \<le> field_limit"
    using Cons.prems by simp_all
  show ?case using c lt Cons.IH[OF nq le, of True] by (simp add: ppc_defs)
qed

lemma scan_field:
  assumes "s0 = START_RECORD \<or> s0 = START_FIELD" "length x \<le> field_limit"
  shows "scan b \<lparr>p_state = s0, p_field = [], p_fields = fs\<rparr> (write_field x @ d # rest)
       = scan (b \<or> x \<noteq> [])
           \<lparr>p_state = (if needs_quote x then QUOTE_IN_QUOTED_FIELD else if x = [] then s0 else IN_FIELD),
            p_field = x, p_fields = fs\<rparr> (d # rest)"
proof (cases "needs_quote x")
  case True
  then have "x \<noteq> []" by (auto simp: needs_quote_def)
  have "scan b \<lparr>p_state = s0, p_field = [], p_fields = fs\<rparr>
          (DQUOTE # str_replace DQUOTE [DQUOTE, DQUOTE] x @ DQUOTE # d # rest)
        = scan True \<lparr>p_state = IN_QUOTED_FIELD, p_field = [], p_fields = fs\<rparr>
          (str_replace DQUOTE [DQUOTE, DQUOTE] x @ DQUOTE # d # rest)"
    using assms(1) by (auto simp: ppc_defs)
  with True \<open>x \<noteq> []\<close> scan_quoted_content[of "[]" x True fs "d # rest"] assms(2)
  show ?thesis by (simp add: write_field_def)
next
  case False
  show ?thesis
  proof (cases x)
    case Nil
    with False show ?thesis by (simp add: write_field_def)
  next
    case (Cons c x')
    have c: "c \<noteq> COMMA" "c \<noteq> DQUOTE" "c \<noteq> CR" "c \<noteq> LF" and nq: "\<not> needs_quote x'"
      using False Cons by (auto simp: needs_quote_def)
    have "scan b \<lparr>p_state = s0, p_field = [], p_fields = fs\<rparr> (c # x' @ d # rest)
        = scan True \<lparr>p_state = IN_FIELD, p_field = [c], p_fields = fs\<rparr> (x' @ d # rest)"
      using assms(1) c by (auto simp: ppc_defs field_limit_def)
    with scan_plain_content[OF nq, of "[c]" True fs "d # rest"] assms(2) False Cons
    show ?thesis by (simp add: write_field_def)
  qed
qed

lemma scan_field_comma:
  assumes "s0 = START_RECORD \<or> s0 = START_FIELD" "length x \<le> field_limit"
  shows "scan b \<lparr>p_state = s0, p_field = [], p_fields = fs\<rparr> (write_field x @ COMMA # rest)
       = scan True \<lparr>p_state = START_FIELD, p_field = [], p_fields = fs @ [x]\<rparr> rest"
  unfolding scan_field[OF assms]
  using assms(1) by (auto simp: ppc_defs)

lemma scan_field_crlf:
  assumes "length x \<le> field_limit"
  shows "scan b \<lparr>p_state = START_FIELD, p_field = [], p_fields = fs\<rparr> (write_field x @ CR # LF # rest)
       = map_option (\<lambda>recs. (fs @ [x]) # recs) (scan False parse_reset rest)"
  unfolding scan_field[OF disjI2[OF refl] assms]
  by (auto simp: ppc_defs)

lemma writerow_two: "writerow [a, b] = write_field a @ COMMA # write_field b @ [CR, LF]"
  by (simp add: writerow_def)

lemma scan_record:
  assumes "length a \<le> field_limit" "length b \<le> field_limit"
  shows "scan f parse_reset (writerow [a, b] @ rest)
       = map_option (\<lambda>recs. [a, b] # recs) (scan False parse_reset rest)"
  unfolding writerow_two parse_reset_def
  using scan_field_comma[OF disjI1[OF refl] assms(1), of f "[]" "write_field b @ CR # LF # rest"]
        scan_field_crlf[OF assms(2), of True "[a]" rest]
  by (simp add: parse_reset_def)

lemma scan_records:
  "\<forall>row \<in> set rows. length (path row) \<le> field_limit \<and> length (text_to_play row) \<le> field_limit \<Longrightarrow>
   scan False parse_reset (concat (map (\<lambda>row. writerow [path row, text_to_play row]) rows))
   = Some (map (\<lambda>row. [path row, text_to_play row]) rows)"
proof (induction rows)
  case Nil
  then show ?case by (simp add: parse_reset_def)
next
  case (Cons row rows)
  then show ?case by (simp add: scan_record)
qed

lemma csv_reader_rows_text:
  assumes "\<forall>row \<in> set rows. length (path row) \<le> field_limit \<and> length (text_to_play row) \<le> field_limit"
  shows "csv_reader (rows_text rows)
         = Some ([''path'', ''text to play''] # map (\<lambda>row. [path row, text_to_play row]) rows)"
proof -
  have "csv_reader (rows_text rows) = scan False parse_reset (rows_text rows)"
    using scan_eq[of parse_reset "[]" parse_reset "rows_text rows"] by (simp add: csv_reader_def)
  also have "\<dots> = map_option (\<lambda>recs. [''path'', ''text to play''] # recs)
       (scan False parse_reset (concat (map (\<lambda>row. writerow [path row, text_to_play row]) rows)))"
    unfolding rows_text_def by (rule scan_record) (simp_all add: field_limit_def)
  finally show ?thesis using scan_records[OF assms] by simp
qed

lemma dict_row_two:
  "dict_row [''path'', ''text to play''] [a, b] = [''path'' \<mapsto> a, ''text to play'' \<mapsto> b]"
  by (simp add: dict_row_def)

lemma dict_reader_rows_text:
  assumes "\<forall>row \<in> set rows. length (path row) \<le> field_limit \<and> length (text_to_play row) \<le> field_limit"
  shows "dict_reader (rows_text rows)
         = Some (map (\<lambda>row. [''path'' \<mapsto> path row, ''text to play'' \<mapsto> text_to_play row]) rows)"
  unfolding dict_reader_def csv_reader_rows_text[OF assms]
  by (simp add: filter_map o_def dict_row_two)

lemma rows_of_written:
  "rows_of (map (\<lambda>row. [''path'' \<mapsto> path row, ''text to play'' \<mapsto> text_to_play row]) rows)
   = map (\<lambda>row. \<lparr>path = strip (path row), text_to_play = strip (text_to_play row)\<rparr>)
       (filter (\<lambda>row. strip (path row) \<noteq> []) rows)"
  by (induction rows) (simp_all add: get_or_empty_def Let_def)

lemma read_back:
  assumes "\<forall>row \<in> set rows. length (path row) \<le> field_limit \<and> length (text_to_play row) \<le> field_limit"
  shows "read_csv_rows (write_rows st p rows) p
         = Inr (map (\<lambda>row. \<lparr>path = strip (path row), text_to_play = strip (text_to_play row)\<rparr>)
                  (filter (\<lambda>row. strip (path row) \<noteq> []) rows))"
  by (simp add: read_csv_rows_def write_rows_def write_text_def dict_reader_rows_text[OF assms]
      rows_of_written)

lemma read_back_same:
  assumes "\<forall>row \<in> set rows. path row \<noteq> [] \<and> strip (path row) = path row
             \<and> strip (text_to_play row) = text_to_play row
             \<and> length (path row) \<le> field_limit \<and> length (text_to_play row) \<le> field_limit"
  shows "read_csv_rows (write_rows st p rows) p = Inr rows"
proof -
  have "map (\<lambda>row. \<lparr>path = strip (path row), text_to_play = strip (text_to_play row)\<rparr>)
                  (filter (\<lambda>row. strip (path row) \<noteq> []) rows) = rows"
    using assms by (induction rows) auto
  with read_back[of rows st p] assms show ?thesis by simp
qed

lemma dropWhile_self: "xs = [] \<or> \<not> P (hd xs) \<Longrightarrow> dropWhile P xs = xs"
  by (cases xs) auto

lemma strip_idem: "strip (strip s) = strip s"
proof -
  let ?t = "dropWhile isspace s"
  let ?u = "dropWhile isspace (rev ?t)"
  have t: "?t = [] \<or> \<not> isspace (hd ?t)" using hd_dropWhile[of isspace s] by blast
  have u: "?u = [] \<or> \<not> isspace (hd ?u)" using hd_dropWhile[of isspace "rev ?t"] by blast
  have "rev ?u = [] \<or> \<not> isspace (hd (rev ?u))"
  proof (cases "?u = []")
    case True then show ?thesis by simp
  next
    case False
    have "?t \<noteq> []"
    proof
      assume "?t = []"
      then have "?u = []" by (simp only: rev.simps dropWhile.simps)
      with False show False by (simp only:)
    qed
    have "suffix ?u (rev ?t)" by (rule suffix_dropWhile)
    then obtain ys where "rev ?t = ys @ ?u" by (auto simp: suffix_def)
    then have "?t = rev ?u @ rev ys" by (metis rev_append rev_rev_ident)
    with False have h: "hd (rev ?u) = hd ?t" by (metis hd_append2 rev_is_Nil_conv)
    from t \<open>?t \<noteq> []\<close> have "\<not> isspace (hd ?t)" by blast
    then have "\<not> isspace (hd (rev ?u))" unfolding h .
    then show ?thesis by (rule disjI2)
  qed
  then have 1: "dropWhile isspace (rev ?u) = rev ?u" by (rule dropWhile_self)
  have 2: "dropWhile isspace ?u = ?u" using u by (rule dropWhile_self)
  show ?thesis unfolding strip_def 1 by (simp add: 2)
qed

section \<open>What the reader returns\<close>

lemma parse_process_char_limit:
  "parse_process_char r c = Some r' \<Longrightarrow> within_limit r \<Longrightarrow> within_limit r'"
  by (cases "p_state r")
     (auto simp: ppc_defs within_limit_def field_limit_def split: if_splits)

lemma process_chars_limit:
  "process_chars r l = Some r' \<Longrightarrow> within_limit r \<Longrightarrow> within_limit r'"
  by (induction l arbitrary: r) (auto split: option.splits dest: parse_process_char_limit)

lemma reader_records_limit:
  "reader_records r ls = Some recs \<Longrightarrow> within_limit r \<Longrightarrow>
   \<forall>rec \<in> set recs. \<forall>f \<in> set rec. length f \<le> field_limit"
proof (induction ls arbitrary: r recs)
  case Nil
  then show ?case by (auto simp: within_limit_def parse_save_field_def split: if_splits)
next
  case (Cons l ls)
  from Cons.prems(1) obtain r1 where r1: "process_line r l = Some r1"
    by (auto split: option.splits)
  then have w1: "within_limit r1"
    using Cons.prems(2)
    by (auto simp: process_line_def split: option.splits
        dest: process_chars_limit parse_process_char_limit)
  have w0: "within_limit parse_reset" by (simp add: within_limit_def parse_reset_def)
  show ?case
  proof (cases "p_state r1 = START_RECORD")
    case True
    with Cons.prems(1) r1 obtain recs' where
      "reader_records parse_reset ls = Some recs'" "recs = p_fields r1 # recs'" by auto
    with Cons.IH[OF this(1) w0] w1 show ?thesis by (auto simp: within_limit_def)
  next
    case False
    with Cons.prems(1) r1 have "reader_records r1 ls = Some recs" by simp
    from Cons.IH[OF this w1] show ?thesis .
  qed
qed

lemma fold_upd_in:
  "fold (\<lambda>(k, v) m. m(k \<mapsto> v)) kvs m k = Some v \<Longrightarrow> m k = Some v \<or> v \<in> snd ` set kvs"
proof (induction kvs arbitrary: m)
  case Nil
  then show ?case by simp
next
  case (Cons kv kvs)
  obtain a b where kv: "kv = (a, b)" by (cases kv)
  from Cons.prems have "fold (\<lambda>(k, v) m. m(k \<mapsto> v)) kvs (m(a \<mapsto> b)) k = Some v"
    by (simp only: kv fold.simps o_apply prod.case)
  from Cons.IH[OF this] show ?case by (auto simp: kv split: if_splits)
qed

lemma fold_del_in:
  "fold (\<lambda>k m. m(k := None)) ks m k = Some v \<Longrightarrow> m k = Some v"
proof (induction ks arbitrary: m)
  case Nil
  then show ?case by simp
next
  case (Cons a ks)
  from Cons.prems have "fold (\<lambda>k m. m(k := None)) ks (m(a := None)) k = Some v"
    by (simp only: fold.simps o_apply)
  from Cons.IH[OF this] show ?case by (auto split: if_splits)
qed

lemma dict_row_in: "dict_row fieldnames row k = Some v \<Longrightarrow> v \<in> set row"
proof -
  assume "dict_row fieldnames row k = Some v"
  then have "fold (\<lambda>(k, v) m. m(k \<mapsto> v)) (zip fieldnames row) Map.empty k = Some v"
    unfolding dict_row_def Let_def by (rule fold_del_in)
  from fold_upd_in[OF this] show ?thesis by (auto dest: set_zip_rightD)
qed

lemma length_strip: "length (strip s) \<le> length s"
proof -
  have "length (dropWhile isspace (rev (dropWhile isspace s))) \<le> length (rev (dropWhile isspace s))"
    by (rule length_dropWhile_le)
  also have "\<dots> \<le> length s" by (simp add: length_dropWhile_le)
  finally show ?thesis by (simp add: strip_def)
qed



lemma rows_of_readable:
  "\<forall>d \<in> set ds. \<forall>k v. d k = Some v \<longrightarrow> length v \<le> field_limit \<Longrightarrow>
   \<forall>row \<in> set (rows_of ds). readable_row row"
proof (induction ds)
  case Nil
  then show ?case by simp
next
  case (Cons d ds)
  have len: "\<And>k. length (strip (get_or_empty d k)) \<le> field_limit"
  proof -
    fix k
    have "length (get_or_empty d k) \<le> field_limit"
      using Cons.prems by (auto simp: get_or_empty_def split: option.splits)
    with length_strip[of "get_or_empty d k"] show "length (strip (get_or_empty d k)) \<le> field_limit"
      by simp
  qed
  from Cons show ?case
    by (auto simp: Let_def readable_row_def strip_idem len)
qed

lemma read_csv_rows_readable:
  assumes "read_csv_rows st p = Inr rows"
  shows "\<forall>row \<in> set rows. readable_row row"
proof -
  from assms obtain content ds where c: "files st p = Some content"
    "dict_reader content = Some ds" "rows = rows_of ds"
    by (auto simp: read_csv_rows_def split: option.splits)
  have "\<forall>d \<in> set ds. \<forall>k v. d k = Some v \<longrightarrow> length v \<le> field_limit"
  proof (cases "csv_reader content")
    case None
    with c(2) show ?thesis by (simp add: dict_reader_def)
  next
    case (Some recs)
    have lim: "\<forall>rec \<in> set recs. \<forall>f \<in> set rec. length f \<le> field_limit"
      using Some reader_records_limit[of parse_reset _ recs]
      by (simp add: csv_reader_def within_limit_def parse_reset_def)
    show ?thesis
    proof (cases recs)
      case Nil
      with Some c(2) show ?thesis by (simp add: dict_reader_def)
    next
      case (Cons fieldnames rs)
      with Some c(2) have "ds = map (dict_row fieldnames) (filter (\<lambda>row. row \<noteq> []) rs)"
        by (simp add: dict_reader_def)
      with lim Cons show ?thesis by (auto dest!: dict_row_in)
    qed
  qed
  from rows_of_readable[OF this] c(3) show ?thesis by simp
qed

lemma strip_plain:
  "s \<noteq> [] \<Longrightarrow> \<not> isspace (hd s) \<Longrightarrow> \<not> isspace (last s) \<Longrightarrow> strip s = s"
proof -
  assume a: "s \<noteq> []" "\<not> isspace (hd s)" "\<not> isspace (last s)"
  have 1: "dropWhile isspace s = s" using a(2) by (intro dropWhile_self) simp
  have "\<not> isspace (hd (rev s))" using a(1,3) by (simp add: hd_rev)
  then have 2: "dropWhile isspace (rev s) = rev s" by (intro dropWhile_self) simp
  show ?thesis unfolding strip_def 1 2 by simp
qed

text \<open>
  C8.
  Writing rows as a snapshot and reading the file back gives the same rows whenever the rows
  are readable: paths not empty, paths and texts stripped, no field beyond the field limit
  of the csv module. Every row the reader returns is readable, so what the program writes,
  rows it has read, comes back unchanged. For rows that are not readable the claim fails:
  the reader strips a padded path and drops a row whose path is empty.
\<close>

theorem snapshot_round_trip:
  "((\<forall>row \<in> set rows. readable_row row) \<longrightarrow> read_csv_rows (write_rows st p rows) p = Inr rows)
   \<and> (read_csv_rows st0 p0 = Inr rows \<longrightarrow> (\<forall>row \<in> set rows. readable_row row))"
proof (intro conjI impI)
  assume "\<forall>row \<in> set rows. readable_row row"
  then show "read_csv_rows (write_rows st p rows) p = Inr rows"
    by (intro read_back_same) (simp add: readable_row_def)
next
  assume "read_csv_rows st0 p0 = Inr rows"
  then show "\<forall>row \<in> set rows. readable_row row" by (rule read_csv_rows_readable)
qed

lemma example_current_readable: "\<forall>row \<in> set example_current. readable_row row"
  by (simp add: example_current_def readable_row_def field_limit_def strip_plain isspace_def)


theorem snapshot_round_trip_witness:
  "list_all readable_row example_current
   \<and> read_csv_rows (write_rows example_state (Path ''/app/data/lastCsvData.csv'') example_current)
         (Path ''/app/data/lastCsvData.csv'') = Inr example_current"
  using snapshot_round_trip[of example_current example_state "Path ''/app/data/lastCsvData.csv''"]
        example_current_readable
  unfolding list_all_iff by blast

lemma strip_padded: "strip '' a.wav'' = ''a.wav''" "strip '' x '' = ''x''"
  by (simp_all add: strip_def isspace_def)

theorem snapshot_round_trip_counterexample:
  "read_csv_rows (write_rows example_state (Path ''/app/data/lastCsvData.csv'') [padded_row])
     (Path ''/app/data/lastCsvData.csv'')
   = Inr [\<lparr>path = ''a.wav'', text_to_play = ''Hi''\<rparr>]
   \<and> [\<lparr>path = ''a.wav'', text_to_play = ''Hi''\<rparr>] \<noteq> [padded_row]
   \<and> read_csv_rows (write_rows example_state (Path ''/app/data/lastCsvData.csv'')
                       [\<lparr>path = '''', text_to_play = ''Hi''\<rparr>])
        (Path ''/app/data/lastCsvData.csv'')
      = Inr []"
proof (intro conjI)
  show "read_csv_rows (write_rows example_state (Path ''/app/data/lastCsvData.csv'') [padded_row])
     (Path ''/app/data/lastCsvData.csv'') = Inr [\<lparr>path = ''a.wav'', text_to_play = ''Hi''\<rparr>]"
    by (subst read_back) (simp_all add: padded_row_def field_limit_def strip_padded strip_plain isspace_def)
  show "[\<lparr>path = ''a.wav'', text_to_play = ''Hi''\<rparr>] \<noteq> [padded_row]"
    by (simp add: padded_row_def)
  show "read_csv_rows (write_rows example_state (Path ''/app/data/lastCsvData.csv'')
                       [\<lparr>path = '''', text_to_play = ''Hi''\<rparr>])
        (Path ''/app/data/lastCsvData.csv'') = Inr []"
    by (subst read_back) (simp_all add: field_limit_def strip_def)
qed

section \<open>Whitespace variants and files read twice\<close>

lemma fold_upd_rel:
  "list_all2 S r1 r2 \<Longrightarrow> rel_option S (m1 k) (m2 k) \<Longrightarrow>
   rel_option S (fold (\<lambda>(k, v) m. m(k \<mapsto> v)) (zip h r1) m1 k)
                (fold (\<lambda>(k, v) m. m(k \<mapsto> v)) (zip h r2) m2 k)"
proof (induction h arbitrary: r1 r2 m1 m2)
  case Nil
  then show ?case by simp
next
  case (Cons x h)
  show ?case
  proof (cases r1)
    case Nil
    with Cons.prems show ?thesis by simp
  next
    case c1: (Cons a r1')
    with Cons.prems(1) obtain b r2' where c2: "r2 = b # r2'" and ab: "S a b" and rest: "list_all2 S r1' r2'"
      by (auto simp: list_all2_Cons1)
    have "rel_option S ((m1(x \<mapsto> a)) k) ((m2(x \<mapsto> b)) k)"
      using Cons.prems(2) ab by simp
    from Cons.IH[of r1' r2' "m1(x \<mapsto> a)" "m2(x \<mapsto> b)", OF rest this] show ?thesis
      by (simp only: c1 c2 zip_Cons_Cons fold.simps o_apply prod.case)
  qed
qed

lemma fold_del_eq:
  "fold (\<lambda>k m. m(k := None)) ks m k = (if k \<in> set ks then None else m k)"
proof (induction ks arbitrary: m)
  case Nil
  then show ?case by simp
next
  case (Cons a ks)
  have "fold (\<lambda>k m. m(k := None)) (a # ks) m k = fold (\<lambda>k m. m(k := None)) ks (m(a := None)) k"
    by (simp only: fold.simps o_apply)
  then show ?case using Cons.IH[of "m(a := None)"] by auto
qed

lemma dict_row_rel:
  assumes "list_all2 S r1 r2"
  shows "rel_option S (dict_row h r1 k) (dict_row h r2 k)"
proof -
  have len: "length r1 = length r2" using assms by (rule list_all2_lengthD)
  have "rel_option S (fold (\<lambda>(k, v) m. m(k \<mapsto> v)) (zip h r1) Map.empty k)
                     (fold (\<lambda>(k, v) m. m(k \<mapsto> v)) (zip h r2) Map.empty k)"
    by (rule fold_upd_rel[OF assms]) simp
  then show ?thesis
    unfolding dict_row_def Let_def fold_del_eq len by simp
qed

lemma rows_of_rel:
  "list_all2 (\<lambda>d1 d2. \<forall>k. strip (get_or_empty d1 k) = strip (get_or_empty d2 k)) ds1 ds2
   \<Longrightarrow> rows_of ds1 = rows_of ds2"
  by (induction rule: list_all2_induct) (simp_all add: Let_def)

lemma dicts_rel:
  "list_all2 (list_all2 (\<lambda>a b. strip a = strip b)) recs1 recs2 \<Longrightarrow>
   list_all2 (\<lambda>d1 d2. \<forall>k. strip (get_or_empty d1 k) = strip (get_or_empty d2 k))
     (map (dict_row h) (filter (\<lambda>row. row \<noteq> []) recs1))
     (map (dict_row h) (filter (\<lambda>row. row \<noteq> []) recs2))"
proof (induction rule: list_all2_induct)
  case Nil
  then show ?case by simp
next
  case (Cons r1 recs1 r2 recs2)
  have e: "(r1 = []) = (r2 = [])" using Cons(1) by (cases r1; cases r2) auto
  have d: "\<And>k. strip (get_or_empty (dict_row h r1) k) = strip (get_or_empty (dict_row h r2) k)"
  proof -
    fix k
    from dict_row_rel[OF Cons(1), of h k]
    show "strip (get_or_empty (dict_row h r1) k) = strip (get_or_empty (dict_row h r2) k)"
      by (cases "dict_row h r1 k"; cases "dict_row h r2 k") (simp_all add: get_or_empty_def)
  qed
  show ?case using Cons(3) e d by simp
qed

lemma whitespace_variant_same_rows:
  assumes "whitespace_variant content1 content2"
    and "files st1 p1 = Some content1" and "files st2 p2 = Some content2"
  shows "read_csv_rows st1 p1 = read_csv_rows st2 p2"
proof -
  obtain h recs1 recs2 where
    r: "csv_reader content1 = Some (h # recs1)" "csv_reader content2 = Some (h # recs2)"
    and l: "list_all2 (list_all2 (\<lambda>a b. strip a = strip b)) recs1 recs2"
  proof (cases "csv_reader content1")
    case None
    with assms(1) show ?thesis by (simp add: whitespace_variant_def)
  next
    case s1: (Some x1)
    show ?thesis
    proof (cases "csv_reader content2")
      case None
      with assms(1) s1 show ?thesis by (simp add: whitespace_variant_def split: list.splits)
    next
      case s2: (Some x2)
      show ?thesis
      proof (cases x1)
        case Nil
        with assms(1) s1 s2 show ?thesis by (simp add: whitespace_variant_def)
      next
        case c1: (Cons h1 recs1)
        show ?thesis
        proof (cases x2)
          case Nil
          with assms(1) s1 s2 c1 show ?thesis by (simp add: whitespace_variant_def)
        next
          case c2: (Cons h2 recs2)
          with assms(1) s1 s2 c1 that show ?thesis by (simp add: whitespace_variant_def)
        qed
      qed
    qed
  qed
  from rows_of_rel[OF dicts_rel[OF l, of h]] r assms(2,3) show ?thesis
    by (simp add: read_csv_rows_def dict_reader_def)
qed

lemma fold_last_map_Some:
  "fold (\<lambda>row m. m(path row \<mapsto> text_to_play row)) rows m k = Some t
   \<Longrightarrow> m k = Some t \<or> (\<exists>r \<in> set rows. path r = k \<and> text_to_play r = t)"
proof (induction rows arbitrary: m)
  case Nil
  then show ?case by simp
next
  case (Cons row rows)
  from Cons.prems have "fold (\<lambda>row m. m(path row \<mapsto> text_to_play row)) rows
      (m(path row \<mapsto> text_to_play row)) k = Some t"
    by (simp only: fold.simps o_apply)
  from Cons.IH[OF this] show ?case by (auto split: if_splits)
qed

lemma last_map_of_Some:
  "last_map_of rows k = Some t \<Longrightarrow> \<exists>r \<in> set rows. path r = k \<and> text_to_play r = t"
  using fold_last_map_Some[of rows Map.empty k t] by (simp add: last_map_of_def)

lemma same_rows_unchanged:
  assumes "same_path_same_text rows"
  shows "filter (is_changed (last_map_of rows)) rows = [] \<and> filter (is_new (last_map_of rows)) rows = []"
proof -
  have m: "last_map_of rows (path row) = Some (text_to_play row)" if row: "row \<in> set rows" for row
  proof -
    from row have "path row \<in> path ` set rows" by (rule imageI)
    then have "last_map_of rows (path row) \<noteq> None" unfolding last_map_of_None by blast
    then obtain t where t: "last_map_of rows (path row) = Some t" by blast
    from last_map_of_Some[OF t] obtain r where r: "r \<in> set rows" "path r = path row" "text_to_play r = t"
      by blast
    from assms[unfolded same_path_same_text_def, rule_format, OF r(1) row r(2)] r(3)
    have "t = text_to_play row" by (simp only:)
    with t show ?thesis by (simp only:)
  qed
  have c: "\<not> is_changed (last_map_of rows) row" if "row \<in> set rows" for row
    unfolding is_changed_def m[OF that] by simp
  have n: "\<not> is_new (last_map_of rows) row" if "row \<in> set rows" for row
    unfolding is_new_def m[OF that] by simp
  show ?thesis unfolding filter_empty_conv using c n by blast
qed

lemma diff_loop_files:
  "diff_loop base last_map rows (changed_rows, new_rows, st) = (changed_rows', new_rows', st')
   \<Longrightarrow> files st' = (\<lambda>p. if \<exists>row \<in> set rows. is_changed last_map row \<and> p = old_file_of base row
                        then None else files st p)
     \<and> calls st' = calls st"
proof (induction rows arbitrary: changed_rows new_rows st)
  case Nil
  then show ?case by simp
next
  case (Cons row rows)
  show ?case
  proof (cases "last_map (path row)")
    case None
    with Cons.prems have "diff_loop base last_map rows
       (changed_rows, new_rows @ [row], emit st (path row @ '' is a new row.''))
       = (changed_rows', new_rows', st')" by simp
    from Cons.IH[OF this] None show ?thesis
      by (simp add: is_changed_def emit_def cong: if_cong)
  next
    case (Some t)
    show ?thesis
    proof (cases "t = text_to_play row")
      case True
      with Some Cons.prems have "diff_loop base last_map rows (changed_rows, new_rows, st)
         = (changed_rows', new_rows', st')" by simp
      from Cons.IH[OF this] Some True show ?thesis
        by (simp add: is_changed_def cong: if_cong)
    next
      case False
      let ?st1 = "emit st (path row @ '' text to play has changed. Removing old audio file.'')"
      let ?st2 = "if exists ?st1 (old_file_of base row) then unlink ?st1 (old_file_of base row) else ?st1"
      have f2: "files ?st2 = (files st)(old_file_of base row := None)" "calls ?st2 = calls st"
        by (auto simp: exists_def unlink_def emit_def)
      from False Some Cons.prems have "diff_loop base last_map rows
         (changed_rows @ [row], new_rows, ?st2) = (changed_rows', new_rows', st')"
        by (simp add: Let_def)
      from Cons.IH[OF this] have "files st' = (\<lambda>p. if \<exists>row \<in> set rows. is_changed last_map row \<and> p = old_file_of base row
                        then None else files ?st2 p)" "calls st' = calls ?st2" by simp_all
      then show ?thesis unfolding f2 using Some False
        by (auto simp: is_changed_def fun_eq_iff)
    qed
  qed
qed

lemma read_csv_rows_text:
  assumes "files st p = Some (rows_text rows)"
    and "\<forall>row \<in> set rows. length (path row) \<le> field_limit \<and> length (text_to_play row) \<le> field_limit"
  shows "read_csv_rows st p
         = Inr (map (\<lambda>row. \<lparr>path = strip (path row), text_to_play = strip (text_to_play row)\<rparr>)
                  (filter (\<lambda>row. strip (path row) \<noteq> []) rows))"
  by (simp add: read_csv_rows_def assms(1) dict_reader_rows_text[OF assms(2)] rows_of_written)

lemma read_csv_rows_text_same:
  assumes "files st p = Some (rows_text rows)" and "\<forall>row \<in> set rows. readable_row row"
  shows "read_csv_rows st p = Inr rows"
proof -
  have "map (\<lambda>row. \<lparr>path = strip (path row), text_to_play = strip (text_to_play row)\<rparr>)
                  (filter (\<lambda>row. strip (path row) \<noteq> []) rows) = rows"
    using assms(2) by (induction rows) (auto simp: readable_row_def)
  moreover have "\<forall>row \<in> set rows. length (path row) \<le> field_limit \<and> length (text_to_play row) \<le> field_limit"
    using assms(2) by (simp add: readable_row_def)
  ultimately show ?thesis using read_csv_rows_text[OF assms(1)] by simp
qed

text \<open>
  C10.
  Every row the reader returns has a path that is not empty, and a path and a text that
  are stripped. Two files that are whitespace variants of each other (the same field
  names, records equal field by field once stripped) are read as the same rows; a blank
  in a field name of the header is not stripped and loses the column. When the rows of the file read twice agree on the text wherever they share a
  path, the change detector finds no new and no changed row and deletes nothing; without
  that condition a row whose path comes again with another text is classified as changed,
  also when the two files are equal.
\<close>

theorem reader_normalises_rows:
  "(read_csv_rows st p = Inr rows \<longrightarrow>
      (\<forall>row \<in> set rows. path row \<noteq> [] \<and> strip (path row) = path row
                          \<and> strip (text_to_play row) = text_to_play row))
   \<and> (whitespace_variant content1 content2 \<and> files st1 p1 = Some content1
        \<and> files st2 p2 = Some content2
      \<longrightarrow> read_csv_rows st1 p1 = read_csv_rows st2 p2)
   \<and> (same_path_same_text current
        \<and> diff_loop base (last_map_of current) current ([], [], st3) = (changed_rows, new_rows, st4)
      \<longrightarrow> changed_rows = [] \<and> new_rows = [] \<and> files st4 = files st3)"
proof (intro conjI impI)
  assume "read_csv_rows st p = Inr rows"
  from read_csv_rows_readable[OF this]
  show "\<forall>row \<in> set rows. path row \<noteq> [] \<and> strip (path row) = path row
                          \<and> strip (text_to_play row) = text_to_play row"
    by (simp add: readable_row_def)
next
  assume "whitespace_variant content1 content2 \<and> files st1 p1 = Some content1
        \<and> files st2 p2 = Some content2"
  then show "read_csv_rows st1 p1 = read_csv_rows st2 p2"
    using whitespace_variant_same_rows by blast
next
  assume a: "same_path_same_text current
        \<and> diff_loop base (last_map_of current) current ([], [], st3) = (changed_rows, new_rows, st4)"
  note u = same_rows_unchanged[OF a[THEN conjunct1]]
  note l = diff_loop_lists[OF a[THEN conjunct2]]
  show "changed_rows = []" using l u by simp
  show "new_rows = []" using l u by simp
  have h: "(\<exists>row \<in> set current. is_changed (last_map_of current) row \<and> q = old_file_of base row) = False" for q
    using u[THEN conjunct1] unfolding filter_empty_conv by blast
  show "files st4 = files st3"
    unfolding diff_loop_files[OF a[THEN conjunct2], THEN conjunct1]
    by (rule ext) (simp only: h if_False)
qed

lemma padded_variant:
  "whitespace_variant (rows_text duplicate_rows) (rows_text duplicate_rows_padded)"
proof -
  have 1: "csv_reader (rows_text duplicate_rows)
     = Some ([''path'', ''text to play''] # map (\<lambda>row. [path row, text_to_play row]) duplicate_rows)"
    by (rule csv_reader_rows_text) (simp add: duplicate_rows_def field_limit_def)
  have 2: "csv_reader (rows_text duplicate_rows_padded)
     = Some ([''path'', ''text to play''] # map (\<lambda>row. [path row, text_to_play row]) duplicate_rows_padded)"
    by (rule csv_reader_rows_text) (simp add: duplicate_rows_padded_def field_limit_def)
  show ?thesis unfolding whitespace_variant_def 1 2
    by (simp add: duplicate_rows_def duplicate_rows_padded_def strip_padded strip_plain isspace_def)
qed

lemma duplicate_rows_read:
  "files st p = Some (rows_text duplicate_rows) \<Longrightarrow> read_csv_rows st p = Inr duplicate_rows"
  by (rule read_csv_rows_text_same)
     (simp_all add: duplicate_rows_def readable_row_def field_limit_def strip_plain isspace_def)

lemma duplicate_rows_padded_read:
  "files st p = Some (rows_text duplicate_rows_padded) \<Longrightarrow> read_csv_rows st p = Inr duplicate_rows"
  using read_csv_rows_text[of st p duplicate_rows_padded]
  by (simp add: duplicate_rows_def duplicate_rows_padded_def field_limit_def strip_plain
       strip_padded isspace_def)




theorem reader_normalises_rows_witness:
  "read_csv_rows (only_file (Path ''/in/lines.csv'') (rows_text example_current)) (Path ''/in/lines.csv'')
     = Inr example_current
   \<and> strip ''a.wav'' = ''a.wav''
   \<and> whitespace_variant (rows_text duplicate_rows) (rows_text duplicate_rows_padded)
   \<and> read_csv_rows (only_file (Path ''/in/lines.csv'') (rows_text duplicate_rows)) (Path ''/in/lines.csv'')
     = read_csv_rows (only_file (Path ''/in/lines.csv'') (rows_text duplicate_rows_padded))
         (Path ''/in/lines.csv'')
   \<and> same_path_same_text example_current
   \<and> fst (diff_loop example_base (last_map_of example_current) example_current
             ([], [], example_state)) = []"
proof -
  let ?p = "Path ''/in/lines.csv''"
  let ?d = "diff_loop example_base (last_map_of example_current) example_current ([], [], example_state)"
  have r: "read_csv_rows (only_file ?p (rows_text example_current)) ?p = Inr example_current"
    by (rule read_csv_rows_text_same[OF _ example_current_readable]) (simp add: only_file_def)
  have "\<lparr>path = ''a.wav'', text_to_play = ''Hello''\<rparr> \<in> set example_current"
    by (simp add: example_current_def)
  with reader_normalises_rows[THEN conjunct1, THEN mp, OF r]
  have s: "strip ''a.wav'' = ''a.wav''" by fastforce
  have f: "files (only_file ?p (rows_text duplicate_rows)) ?p = Some (rows_text duplicate_rows)"
    "files (only_file ?p (rows_text duplicate_rows_padded)) ?p = Some (rows_text duplicate_rows_padded)"
    by (simp_all add: only_file_def)
  have w: "read_csv_rows (only_file ?p (rows_text duplicate_rows)) ?p
     = read_csv_rows (only_file ?p (rows_text duplicate_rows_padded)) ?p"
    by (rule reader_normalises_rows[THEN conjunct2, THEN conjunct1, THEN mp,
          OF conjI[OF padded_variant conjI[OF f]]])
  have sp: "same_path_same_text example_current"
    by (simp add: same_path_same_text_def example_current_def)
  have "?d = (fst ?d, fst (snd ?d), snd (snd ?d))" by simp
  with sp have "same_path_same_text example_current
      \<and> ?d = (fst ?d, fst (snd ?d), snd (snd ?d))" by (rule conjI)
  from reader_normalises_rows[THEN conjunct2, THEN conjunct2, THEN mp, OF this]
  have d: "fst ?d = []" by (rule conjunct1)
  from r s padded_variant w sp d show ?thesis by (intro conjI)
qed

lemma padded_header_read:
  "read_csv_rows (only_file p padded_header_text) p = Inr []"
proof -
  have "csv_reader padded_header_text = scan False parse_reset padded_header_text"
    using scan_eq[of parse_reset "[]" parse_reset padded_header_text] by (simp add: csv_reader_def)
  also have "\<dots> = map_option (\<lambda>recs. ['' path'', ''text to play''] # recs)
        (scan False parse_reset (writerow [''a.wav'', ''Hi''] @ []))"
    unfolding padded_header_text_def append_Nil2
    by (rule scan_record) (simp_all add: field_limit_def)
  also have "scan False parse_reset (writerow [''a.wav'', ''Hi''] @ [])
        = map_option (\<lambda>recs. [''a.wav'', ''Hi''] # recs) (scan False parse_reset [])"
    by (rule scan_record) (simp_all add: field_limit_def)
  also have "scan False parse_reset [] = Some []" by (simp add: parse_reset_def)
  finally have c: "csv_reader padded_header_text
      = Some [['' path'', ''text to play''], [''a.wav'', ''Hi'']]" by simp
  have d: "dict_row ['' path'', ''text to play''] [''a.wav'', ''Hi'']
      = ['' path'' \<mapsto> ''a.wav'', ''text to play'' \<mapsto> ''Hi'']"
    by (simp add: dict_row_def)
  show ?thesis
    by (simp add: read_csv_rows_def only_file_def dict_reader_def c d get_or_empty_def strip_def)
qed

theorem whitespace_edit_counterexample:
  "whitespace_variant (rows_text duplicate_rows) (rows_text duplicate_rows_padded)
   \<and> read_csv_rows (only_file (Path ''/in/lines.csv'') (rows_text duplicate_rows)) (Path ''/in/lines.csv'')
     = Inr duplicate_rows
   \<and> read_csv_rows (only_file (Path ''/in/lines.csv'') (rows_text duplicate_rows_padded))
         (Path ''/in/lines.csv'')
     = Inr duplicate_rows
   \<and> fst (diff_loop example_base (last_map_of duplicate_rows) duplicate_rows ([], [], example_state))
     = [\<lparr>path = ''a.wav'', text_to_play = ''x''\<rparr>]
   \<and> read_csv_rows (only_file (Path ''/in/lines.csv'') padded_header_text) (Path ''/in/lines.csv'')
     = Inr []
   \<and> read_csv_rows (only_file (Path ''/in/lines.csv'')
                       (rows_text [\<lparr>path = ''a.wav'', text_to_play = ''Hi''\<rparr>]))
        (Path ''/in/lines.csv'')
     = Inr [\<lparr>path = ''a.wav'', text_to_play = ''Hi''\<rparr>]"
proof -
  let ?p = "Path ''/in/lines.csv''"
  let ?d = "diff_loop example_base (last_map_of duplicate_rows) duplicate_rows ([], [], example_state)"
  have 1: "read_csv_rows (only_file ?p (rows_text duplicate_rows)) ?p = Inr duplicate_rows"
    by (rule duplicate_rows_read) (simp add: only_file_def)
  have 2: "read_csv_rows (only_file ?p (rows_text duplicate_rows_padded)) ?p = Inr duplicate_rows"
    by (rule duplicate_rows_padded_read) (simp add: only_file_def)
  have "?d = (fst ?d, fst (snd ?d), snd (snd ?d))" by simp
  note l = diff_loop_lists[OF this]
  have c: "filter (is_changed (last_map_of duplicate_rows)) duplicate_rows
           = [\<lparr>path = ''a.wav'', text_to_play = ''x''\<rparr>]"
    by (simp add: duplicate_rows_def last_map_of_def is_changed_def)
  from l c have 3: "fst ?d = [\<lparr>path = ''a.wav'', text_to_play = ''x''\<rparr>]" by simp
  have 4: "read_csv_rows (only_file ?p (rows_text [\<lparr>path = ''a.wav'', text_to_play = ''Hi''\<rparr>])) ?p
           = Inr [\<lparr>path = ''a.wav'', text_to_play = ''Hi''\<rparr>]"
    by (rule read_csv_rows_text_same)
       (simp_all add: only_file_def readable_row_def field_limit_def strip_plain isspace_def)
  from padded_variant 1 2 3 padded_header_read 4 show ?thesis by (intro conjI)
qed

section \<open>The synthesis loop and the output root\<close>

lemma synth_row_calls:
  assumes "synth_row ex w base row (failed, st) = (failed', st')"
  shows "\<exists>k ssml. calls st' = calls st @ replicate k (path_str (old_file_of base row), ssml)
           \<and> (k > 0 \<longrightarrow> \<not> unsafe_path row)"
proof (cases "unsafe_path row \<or> exists st (old_file_of base row)")
  case True
  have "calls st' = calls st"
  proof (cases "unsafe_path row")
    case u: True
    with assms show ?thesis by (auto simp: synth_row_unsafe emit_def)
  next
    case u: False
    with True assms show ?thesis by (auto simp: synth_row_exists emit_def)
  qed
  then show ?thesis by (intro exI[of _ 0]) simp
next
  case False
  let ?out = "old_file_of base row"
  from False have a: "\<not> unsafe_path row" "\<not> exists st ?out" by auto
  obtain ssml msg where r: "synth_row ex w base row (failed, st) = retry_loop ex ?out ssml 0 (failed, emit st msg)"
    using synth_row_missing[OF a] by blast
  have "observe (failed', st') = spec_attempts ex ?out ssml 3 (failed, files (emit st msg), calls (emit st msg))"
    using retry_loop_refines[of 0 ex ?out ssml failed "emit st msg"] r assms by simp
  then have "spec_attempts ex ?out ssml 3 (failed, files st, calls st) = (failed', files st', calls st')"
    by (simp add: observe_def emit_def)
  from spec_attempts_frame[OF this] a(1) show ?thesis by blast
qed

lemma synth_loop_frame:
  "synth_loop ex w base rows (failed, st) = (failed', st') \<Longrightarrow>
   (\<forall>p. \<not> under_root base p \<or> exists st p \<longrightarrow> files st' p = files st p)
   \<and> (\<exists>new. calls st' = calls st @ new
         \<and> (\<forall>c \<in> set new. \<exists>row \<in> set rows. \<not> unsafe_path row
                \<and> fst c = path_str (old_file_of base row)))"
proof (induction rows arbitrary: failed st)
  case Nil
  then show ?case by (simp add: synth_loop_def)
next
  case (Cons row rows)
  obtain failed1 st1 where r: "synth_row ex w base row (failed, st) = (failed1, st1)"
    by (cases "synth_row ex w base row (failed, st)")
  with Cons.prems have l: "synth_loop ex w base rows (failed1, st1) = (failed', st')"
    by (simp add: synth_loop_Cons)
  note ih = Cons.IH[OF l]
  note fr = synth_row_frame[OF r]
  have f1: "files st1 p = files st p" if "\<not> under_root base p \<or> exists st p" for p
  proof (cases "unsafe_path row")
    case True
    with fr show ?thesis by blast
  next
    case False
    from unsafe_path_old_file[OF False, of base] that fr show ?thesis by metis
  qed
  have files: "\<forall>p. \<not> under_root base p \<or> exists st p \<longrightarrow> files st' p = files st p"
  proof (intro allI impI)
    fix p assume p: "\<not> under_root base p \<or> exists st p"
    from f1[OF p] p have "\<not> under_root base p \<or> exists st1 p" by (auto simp: exists_def)
    with ih f1[OF p] show "files st' p = files st p" by simp
  qed
  from synth_row_calls[OF r] obtain k ssml where k:
    "calls st1 = calls st @ replicate k (path_str (old_file_of base row), ssml)"
    "k > 0 \<longrightarrow> \<not> unsafe_path row" by blast
  from ih obtain new where new: "calls st' = calls st1 @ new"
    "\<forall>c \<in> set new. \<exists>row \<in> set rows. \<not> unsafe_path row \<and> fst c = path_str (old_file_of base row)"
    by blast
  have "calls st' = calls st @ (replicate k (path_str (old_file_of base row), ssml) @ new)"
    using k(1) new(1) by simp
  moreover have "\<forall>c \<in> set (replicate k (path_str (old_file_of base row), ssml) @ new).
      \<exists>r \<in> set (row # rows). \<not> unsafe_path r \<and> fst c = path_str (old_file_of base r)"
    using k(2) new(2) by auto
  ultimately show ?case using files by blast
qed

text \<open>
  On the POSIX flavour the check keeps the loop inside the output root.
  A row whose path, with \<open>:\<close> replaced by \<open>_\<close>, is absolute or has a \<open>..\<close> part is skipped
  with one log line: the failure list, the files and the invocations of the capability
  stay as they were. Over any rows, the loop leaves every file that is not under the
  output root as it was, and every invocation it makes is for the output file of a safe
  row, which lies under the output root.
\<close>

theorem unsafe_rows_are_skipped:
  "(unsafe_path row \<longrightarrow>
      (case synth_row ex w base row (failed, st) of
         (failed', st') \<Rightarrow>
           failed' = failed \<and> files st' = files st \<and> calls st' = calls st
           \<and> log st' = log st @ [''Skipping unsafe CSV path: '' @ path row]))
   \<and> (case synth_loop ex w base rows (failed, st) of
         (failed', st') \<Rightarrow>
           (\<forall>p. \<not> under_root base p \<longrightarrow> files st' p = files st p)
           \<and> (\<exists>new. calls st' = calls st @ new
                 \<and> (\<forall>c \<in> set new. \<exists>row \<in> set rows.
                        \<not> unsafe_path row \<and> under_root base (old_file_of base row)
                        \<and> fst c = path_str (old_file_of base row))))"
proof (intro conjI impI)
  assume "unsafe_path row"
  then show "case synth_row ex w base row (failed, st) of
         (failed', st') \<Rightarrow>
           failed' = failed \<and> files st' = files st \<and> calls st' = calls st
           \<and> log st' = log st @ [''Skipping unsafe CSV path: '' @ path row]"
    by (simp add: synth_row_unsafe emit_def)
next
  obtain failed' st' where r: "synth_loop ex w base rows (failed, st) = (failed', st')"
    by (cases "synth_loop ex w base rows (failed, st)")
  from synth_loop_frame[OF r] obtain new where
    f: "\<forall>p. \<not> under_root base p \<or> exists st p \<longrightarrow> files st' p = files st p"
    and n: "calls st' = calls st @ new"
      "\<forall>c \<in> set new. \<exists>row \<in> set rows. \<not> unsafe_path row \<and> fst c = path_str (old_file_of base row)"
    by blast
  have "\<forall>c \<in> set new. \<exists>row \<in> set rows.
          \<not> unsafe_path row \<and> under_root base (old_file_of base row)
          \<and> fst c = path_str (old_file_of base row)"
    using n(2) unsafe_path_old_file by blast
  with f n(1) show "case synth_loop ex w base rows (failed, st) of
         (failed', st') \<Rightarrow>
           (\<forall>p. \<not> under_root base p \<longrightarrow> files st' p = files st p)
           \<and> (\<exists>new. calls st' = calls st @ new
                 \<and> (\<forall>c \<in> set new. \<exists>row \<in> set rows.
                        \<not> unsafe_path row \<and> under_root base (old_file_of base row)
                        \<and> fst c = path_str (old_file_of base row)))"
    unfolding r prod.case by blast
qed

lemma escaping_unsafe:
  "unsafe_path \<lparr>path = ''/etc/passwd'', text_to_play = ''new''\<rparr>"
  "unsafe_path \<lparr>path = ''../secret.wav'', text_to_play = ''new''\<rparr>"
  by (simp_all add: unsafe_path_def Path_def str_replace_def is_absolute_def parts_def)

lemma escaping_paths:
  "old_file_of example_base \<lparr>path = ''/etc/passwd'', text_to_play = ''new''\<rparr>
     = \<lparr>root = ''/'', segs = [''etc'', ''passwd'']\<rparr>"
  "old_file_of example_base \<lparr>path = ''../secret.wav'', text_to_play = ''new''\<rparr>
     = \<lparr>root = ''/'', segs = [''out'', ''en'', ''US'', ''JennyNeural'', ''..'', ''secret.wav'']\<rparr>"
  by (simp_all add: old_file_of_def example_base_def Path_def joinpath_def is_absolute_def
      str_replace_def)

lemma escaping_outside:
  "\<not> under_root example_base \<lparr>root = ''/'', segs = [''etc'', ''passwd'']\<rparr>"
  "\<not> under_root example_base
       \<lparr>root = ''/'', segs = [''out'', ''en'', ''US'', ''JennyNeural'', ''..'', ''secret.wav'']\<rparr>"
  by (simp_all add: under_root_def example_base_eq)

theorem unsafe_rows_are_skipped_witness:
  "unsafe_path \<lparr>path = ''../secret.wav'', text_to_play = ''new''\<rparr>
   \<and> calls (snd (synth_row working_service example_worker example_base
                    \<lparr>path = ''../secret.wav'', text_to_play = ''new''\<rparr> ([], victim_state))) = []
   \<and> \<not> under_root example_base \<lparr>root = ''/'', segs = [''etc'', ''passwd'']\<rparr>
   \<and> files (snd (synth_loop working_service example_worker example_base
                    (escaping_rows @ example_current) ([], victim_state)))
        \<lparr>root = ''/'', segs = [''etc'', ''passwd'']\<rparr> = Some ''root''"
proof -
  let ?row = "\<lparr>path = ''../secret.wav'', text_to_play = ''new''\<rparr>"
  let ?r = "synth_row working_service example_worker example_base ?row ([], victim_state)"
  let ?l = "synth_loop working_service example_worker example_base
                    (escaping_rows @ example_current) ([], victim_state)"
  note t = unsafe_rows_are_skipped[where row = ?row and ex = working_service
      and w = example_worker and base = example_base and failed = "[]" and st = victim_state
      and rows = "escaping_rows @ example_current"]
  from t[THEN conjunct1, THEN mp, OF escaping_unsafe(2)]
  have 1: "calls (snd ?r) = []"
    by (cases ?r) (simp add: victim_state_def)
  from t[THEN conjunct2]
  have "\<forall>p. \<not> under_root example_base p \<longrightarrow> files (snd ?l) p = files victim_state p"
    by (cases ?l) simp
  from this[rule_format, OF escaping_outside(1)]
  have 2: "files (snd ?l) \<lparr>root = ''/'', segs = [''etc'', ''passwd'']\<rparr> = Some ''root''"
    by (simp add: victim_state_def)
  from escaping_unsafe(2) 1 escaping_outside(1) 2 show ?thesis by (intro conjI)
qed

subsection \<open>The check on Windows\<close>

lemma to_backslash_idem:
  "str_replace (CHR ''/'') [BACKSLASH] (str_replace (CHR ''/'') [BACKSLASH] s)
   = str_replace (CHR ''/'') [BACKSLASH] s"
  by (induction s) (simp_all add: str_replace_def)

lemma to_backslash_Cons:
  "str_replace (CHR ''/'') [BACKSLASH] (c # rest)
   = (if c = CHR ''/'' then BACKSLASH else c) # str_replace (CHR ''/'') [BACKSLASH] rest"
  by (simp add: str_replace_def)

lemma to_backslash_take1:
  "take 1 (str_replace (CHR ''/'') [BACKSLASH] rest) = [BACKSLASH]
   \<longleftrightarrow> take 1 rest = ''/'' \<or> take 1 rest = [BACKSLASH]"
  by (cases rest) (simp_all add: to_backslash_Cons, simp add: str_replace_def)

lemma WindowsPath_rooted:
  assumes "c = CHR ''/'' \<or> c = BACKSLASH"
    and "take 1 rest \<noteq> ''/'' \<and> take 1 rest \<noteq> [BACKSLASH]"
  shows "WindowsPath (c # rest)
         = \<lparr>win_drive = [], win_root = [BACKSLASH],
            win_segs = filter (\<lambda>x. x \<noteq> [] \<and> x \<noteq> ''.'')
                         (split_on BACKSLASH (str_replace (CHR ''/'') [BACKSLASH] rest))\<rparr>"
proof -
  let ?rest = "str_replace (CHR ''/'') [BACKSLASH] rest"
  have p: "str_replace (CHR ''/'') [BACKSLASH] (c # rest) = BACKSLASH # ?rest"
    using assms(1) by (auto simp: to_backslash_Cons)
  have n: "take 1 ?rest \<noteq> [BACKSLASH]"
    using assms(2) unfolding to_backslash_take1 by simp
  have "splitroot (BACKSLASH # ?rest) = ([], [BACKSLASH], ?rest)"
    using n by (simp add: splitroot_def to_backslash_Cons to_backslash_idem Let_def)
  then show ?thesis
    by (simp add: WindowsPath_def p Let_def)
qed

text \<open>
  C5.
  On Windows the check does not keep the loop inside the output root. A row whose path,
  with \<open>:\<close> replaced by \<open>_\<close>, begins with one separator (\<open>/\<close> or a backslash, and no second
  one after it) and has no \<open>..\<close> segment is not absolute, since it has no drive, and has
  no \<open>..\<close> part: the row is not skipped. Its output file is the row's path on the drive
  of the output root, whatever the directories of the output root are, so it is not
  under the output root unless the row spells out the directories of the output root
  itself; the loop goes on to synthesize into that file. For \<open>/etc/passwd\<close> and an output root on drive \<open>C:\<close>
  the file is \<open>passwd\<close> in the directory \<open>etc\<close> at the root of drive \<open>C:\<close>.
\<close>

theorem windows_rooted_path_not_skipped:
  assumes "str_replace (CHR '':'') ''_'' (path row) = c # rest"
    and "c = CHR ''/'' \<or> c = BACKSLASH"
    and "take 1 rest \<noteq> ''/'' \<and> take 1 rest \<noteq> [BACKSLASH]"
    and "''..'' \<notin> set (split_on BACKSLASH (str_replace (CHR ''/'') [BACKSLASH] rest))"
  shows "\<not> windows_unsafe_path row
       \<and> windows_output_file base_output row
         = \<lparr>win_drive = win_drive base_output, win_root = [BACKSLASH],
            win_segs = filter (\<lambda>x. x \<noteq> [] \<and> x \<noteq> ''.'')
                         (split_on BACKSLASH (str_replace (CHR ''/'') [BACKSLASH] rest))\<rparr>
       \<and> (\<not> prefix (map lower (win_segs base_output))
                (map lower (filter (\<lambda>x. x \<noteq> [] \<and> x \<noteq> ''.'')
                              (split_on BACKSLASH (str_replace (CHR ''/'') [BACKSLASH] rest))))
            \<longrightarrow> \<not> windows_under_root base_output (windows_output_file base_output row))"
proof -
  note p = WindowsPath_rooted[OF assms(2,3)]
  have "\<not> windows_unsafe_path row"
    using assms(4)
    by (simp add: windows_unsafe_path_def assms(1) p windows_is_absolute_def windows_parts_def)
  moreover have "windows_output_file base_output row
         = \<lparr>win_drive = win_drive base_output, win_root = [BACKSLASH],
            win_segs = filter (\<lambda>x. x \<noteq> [] \<and> x \<noteq> ''.'')
                         (split_on BACKSLASH (str_replace (CHR ''/'') [BACKSLASH] rest))\<rparr>"
    by (simp add: windows_output_file_def assms(1) p windows_joinpath_def)
  ultimately show ?thesis by (simp add: windows_under_root_def)
qed

lemma windows_example_base_eq:
  "windows_example_base
   = \<lparr>win_drive = ''C:'', win_root = [BACKSLASH], win_segs = [''out'', ''en'', ''US'', ''JennyNeural'']\<rparr>"
  by (simp add: windows_example_base_def WindowsPath_def splitroot_def str_replace_def Let_def)

theorem windows_rooted_path_not_skipped_witness:
  "\<not> windows_unsafe_path \<lparr>path = ''/etc/passwd'', text_to_play = ''new''\<rparr>
   \<and> windows_output_file windows_example_base \<lparr>path = ''/etc/passwd'', text_to_play = ''new''\<rparr>
     = \<lparr>win_drive = ''C:'', win_root = [BACKSLASH], win_segs = [''etc'', ''passwd'']\<rparr>
   \<and> windows_path_str \<lparr>win_drive = ''C:'', win_root = [BACKSLASH], win_segs = [''etc'', ''passwd'']\<rparr>
     = ''C:'' @ [BACKSLASH] @ ''etc'' @ [BACKSLASH] @ ''passwd''
   \<and> \<not> windows_under_root windows_example_base
         \<lparr>win_drive = ''C:'', win_root = [BACKSLASH], win_segs = [''etc'', ''passwd'']\<rparr>"
proof -
  let ?row = "\<lparr>path = ''/etc/passwd'', text_to_play = ''new''\<rparr>"
  have h1: "str_replace (CHR '':'') ''_'' (path ?row) = CHR ''/'' # ''etc/passwd''"
    by (simp add: str_replace_def)
  have h2: "CHR ''/'' = CHR ''/'' \<or> CHR ''/'' = BACKSLASH" by simp
  have h3: "take 1 ''etc/passwd'' \<noteq> ''/'' \<and> take 1 ''etc/passwd'' \<noteq> [BACKSLASH]" by simp
  have sp: "split_on BACKSLASH (str_replace (CHR ''/'') [BACKSLASH] ''etc/passwd'') = [''etc'', ''passwd'']"
    by (simp add: str_replace_def)
  have h4: "''..'' \<notin> set (split_on BACKSLASH (str_replace (CHR ''/'') [BACKSLASH] ''etc/passwd''))"
    unfolding sp by simp
  note t = windows_rooted_path_not_skipped[OF h1 h2 h3 h4, of windows_example_base]
  have 1: "\<not> windows_unsafe_path ?row" using t by (rule conjunct1)
  have 2: "windows_output_file windows_example_base ?row
     = \<lparr>win_drive = ''C:'', win_root = [BACKSLASH], win_segs = [''etc'', ''passwd'']\<rparr>"
    using t[THEN conjunct2, THEN conjunct1] unfolding sp by (simp add: windows_example_base_eq)
  have 3: "windows_path_str \<lparr>win_drive = ''C:'', win_root = [BACKSLASH], win_segs = [''etc'', ''passwd'']\<rparr>
     = ''C:'' @ [BACKSLASH] @ ''etc'' @ [BACKSLASH] @ ''passwd''"
    by (simp add: windows_path_str_def)
  have "\<not> prefix (map lower (win_segs windows_example_base)) (map lower [''etc'', ''passwd''])"
    by (simp add: windows_example_base_eq lower_def lower_char_def)
  with t[THEN conjunct2, THEN conjunct2] 2
  have 4: "\<not> windows_under_root windows_example_base
         \<lparr>win_drive = ''C:'', win_root = [BACKSLASH], win_segs = [''etc'', ''passwd'']\<rparr>"
    unfolding sp by simp
  from 1 2 3 4 show ?thesis by (intro conjI)
qed

section \<open>Selecting the target rows\<close>

lemma select_target_rows_frame:
  "select_target_rows changed_rows new_rows current_rows st = (target_rows, st')
   \<Longrightarrow> files st' = files st \<and> calls st' = calls st"
  by (auto simp: select_target_rows_def emit_def split: if_splits)

text \<open>
  C4.
  After the loop over the current rows, \<open>changed_rows\<close> and \<open>new_rows\<close> are the changed
  and the new rows in the order of the file. The target is the changed rows followed by
  the new rows when both groups have rows, the one group that has rows when only one has,
  and all current rows when neither has; selecting touches no file and invokes nothing.
  In the loop over the target a row whose output file exists is left alone, and every file
  that exists when the loop starts is the same when it ends: work is done for missing
  files only.
\<close>

theorem target_selection:
  assumes "diff_loop base last_map current_rows ([], [], st) = (changed_rows, new_rows, st1)"
    and "select_target_rows changed_rows new_rows current_rows st1 = (target_rows, st2)"
  shows "changed_rows = filter (is_changed last_map) current_rows
    \<and> new_rows = filter (is_new last_map) current_rows
    \<and> (changed_rows \<noteq> [] \<and> new_rows \<noteq> [] \<longrightarrow> target_rows = changed_rows @ new_rows)
    \<and> (changed_rows \<noteq> [] \<and> new_rows = [] \<longrightarrow> target_rows = changed_rows)
    \<and> (changed_rows = [] \<and> new_rows \<noteq> [] \<longrightarrow> target_rows = new_rows)
    \<and> (changed_rows = [] \<and> new_rows = [] \<longrightarrow> target_rows = current_rows)
    \<and> files st2 = files st1 \<and> calls st2 = calls st1
    \<and> (\<forall>row failed s. exists s (old_file_of base row) \<longrightarrow>
          (case synth_row ex w base row (failed, s) of
             (failed', s') \<Rightarrow> failed' = failed \<and> files s' = files s \<and> calls s' = calls s))
    \<and> (\<forall>p. exists st2 p \<longrightarrow>
          files (snd (synth_loop ex w base target_rows ([], st2))) p = files st2 p)"
proof -
  note l = diff_loop_lists[OF assms(1)]
  have skip: "case synth_row ex w base row (failed, s) of
             (failed', s') \<Rightarrow> failed' = failed \<and> files s' = files s \<and> calls s' = calls s"
    if "exists s (old_file_of base row)" for row failed s
  proof (cases "unsafe_path row")
    case True
    then show ?thesis by (simp add: synth_row_unsafe emit_def)
  next
    case False
    with that show ?thesis by (simp add: synth_row_exists emit_def)
  qed
  have keep: "files (snd (synth_loop ex w base target_rows ([], st2))) p = files st2 p"
    if "exists st2 p" for p
  proof -
    obtain failed' st' where r: "synth_loop ex w base target_rows ([], st2) = (failed', st')"
      by (cases "synth_loop ex w base target_rows ([], st2)")
    from synth_loop_frame[OF r] that show ?thesis by (simp add: r)
  qed
  from assms(2) have sel:
    "(changed_rows \<noteq> [] \<and> new_rows \<noteq> [] \<longrightarrow> target_rows = changed_rows @ new_rows)"
    "(changed_rows \<noteq> [] \<and> new_rows = [] \<longrightarrow> target_rows = changed_rows)"
    "(changed_rows = [] \<and> new_rows \<noteq> [] \<longrightarrow> target_rows = new_rows)"
    "(changed_rows = [] \<and> new_rows = [] \<longrightarrow> target_rows = current_rows)"
    by (auto simp: select_target_rows_def split: if_splits)
  from l sel select_target_rows_frame[OF assms(2)] skip keep show ?thesis
    by (intro conjI allI impI) simp_all
qed

theorem target_selection_witness:
  "fst (select_target_rows
          (fst (diff_loop example_base (last_map_of example_previous) example_current
                  ([], [], example_state)))
          (fst (snd (diff_loop example_base (last_map_of example_previous) example_current
                  ([], [], example_state))))
          example_current
          (snd (snd (diff_loop example_base (last_map_of example_previous) example_current
                  ([], [], example_state)))))
   = [\<lparr>path = ''a.wav'', text_to_play = ''Hello''\<rparr>, \<lparr>path = ''b.wav'', text_to_play = ''New''\<rparr>]"
proof -
  let ?m = "last_map_of example_previous"
  let ?d = "diff_loop example_base ?m example_current ([], [], example_state)"
  let ?s = "select_target_rows (fst ?d) (fst (snd ?d)) example_current (snd (snd ?d))"
  have d: "?d = (fst ?d, fst (snd ?d), snd (snd ?d))" by simp
  have s: "?s = (fst ?s, snd ?s)" by simp
  note t = target_selection[OF d s]
  have c: "filter (is_changed ?m) example_current = [\<lparr>path = ''a.wav'', text_to_play = ''Hello''\<rparr>]"
    by (simp add: example_previous_def example_current_def last_map_of_def is_changed_def)
  have n: "filter (is_new ?m) example_current = [\<lparr>path = ''b.wav'', text_to_play = ''New''\<rparr>]"
    by (simp add: example_previous_def example_current_def last_map_of_def is_new_def)
  have c': "fst ?d = [\<lparr>path = ''a.wav'', text_to_play = ''Hello''\<rparr>]"
    using t[THEN conjunct1] unfolding c .
  have n': "fst (snd ?d) = [\<lparr>path = ''b.wav'', text_to_play = ''New''\<rparr>]"
    using t[THEN conjunct2, THEN conjunct1] unfolding n .
  have "fst ?d \<noteq> [] \<and> fst (snd ?d) \<noteq> []" unfolding c' n' by simp
  from t[THEN conjunct2, THEN conjunct2, THEN conjunct1, THEN mp, OF this]
  show ?thesis unfolding c' n' by simp
qed

text \<open>
  C6.
  For every row the change detection classifies as changed, the file at the output root
  joined with the row's path (\<open>:\<close> replaced by \<open>_\<close>) is gone when the loop over the current
  rows ends, whether the path is safe or not: that loop has no safety check. When the
  path is absolute the file is the one at that absolute path; when it is relative with a
  \<open>..\<close> part the file is not under the output root. The check of the later synthesis
  loop only keeps that loop from touching files for such a row.
\<close>

theorem changed_row_deleted_before_safety_check:
  assumes "diff_loop base last_map current_rows (changed_rows, new_rows, st) = (changed_rows', new_rows', st')"
    and "row \<in> set current_rows" and "is_changed last_map row"
  shows "files st' (old_file_of base row) = None
    \<and> (let p = Path (str_replace (CHR '':'') ''_'' (path row))
       in (is_absolute p \<longrightarrow> old_file_of base row = p)
          \<and> (\<not> is_absolute p \<and> ''..'' \<in> set (parts p) \<longrightarrow> \<not> under_root base (old_file_of base row)))
    \<and> (unsafe_path row \<longrightarrow>
         (\<forall>ex w failed s. files (snd (synth_row ex w base row (failed, s))) = files s))"
proof (intro conjI)
  from diff_loop_files[OF assms(1)] assms(2,3)
  show "files st' (old_file_of base row) = None" by auto
  show "let p = Path (str_replace (CHR '':'') ''_'' (path row))
       in (is_absolute p \<longrightarrow> old_file_of base row = p)
          \<and> (\<not> is_absolute p \<and> ''..'' \<in> set (parts p) \<longrightarrow> \<not> under_root base (old_file_of base row))"
    by (auto simp: Let_def old_file_of_def joinpath_def under_root_def parts_def is_absolute_def)
  show "unsafe_path row \<longrightarrow>
         (\<forall>ex w failed s. files (snd (synth_row ex w base row (failed, s))) = files s)"
    by (simp add: synth_row_unsafe emit_def)
qed

theorem changed_row_deleted_before_safety_check_witness:
  "files victim_state \<lparr>root = ''/'', segs = [''etc'', ''passwd'']\<rparr> = Some ''root''
   \<and> \<not> under_root example_base \<lparr>root = ''/'', segs = [''etc'', ''passwd'']\<rparr>
   \<and> files (snd (snd (diff_loop example_base (last_map_of escaping_previous) escaping_rows
                         ([], [], victim_state))))
        \<lparr>root = ''/'', segs = [''etc'', ''passwd'']\<rparr> = None
   \<and> files victim_state
        \<lparr>root = ''/'', segs = [''out'', ''en'', ''US'', ''JennyNeural'', ''..'', ''secret.wav'']\<rparr>
      = Some ''secret''
   \<and> files (snd (snd (diff_loop example_base (last_map_of escaping_previous) escaping_rows
                         ([], [], victim_state))))
        \<lparr>root = ''/'', segs = [''out'', ''en'', ''US'', ''JennyNeural'', ''..'', ''secret.wav'']\<rparr>
      = None"
proof -
  let ?m = "last_map_of escaping_previous"
  let ?d = "diff_loop example_base ?m escaping_rows ([], [], victim_state)"
  let ?r1 = "\<lparr>path = ''/etc/passwd'', text_to_play = ''new''\<rparr>"
  let ?r2 = "\<lparr>path = ''../secret.wav'', text_to_play = ''new''\<rparr>"
  have d: "?d = (fst ?d, fst (snd ?d), snd (snd ?d))" by simp
  have m: "is_changed ?m ?r1" "is_changed ?m ?r2"
    by (simp_all add: escaping_previous_def last_map_of_def is_changed_def)
  have i: "?r1 \<in> set escaping_rows" "?r2 \<in> set escaping_rows"
    by (simp_all add: escaping_rows_def)
  from changed_row_deleted_before_safety_check[OF d i(1) m(1), THEN conjunct1]
  have 1: "files (snd (snd ?d)) \<lparr>root = ''/'', segs = [''etc'', ''passwd'']\<rparr> = None"
    unfolding escaping_paths .
  from changed_row_deleted_before_safety_check[OF d i(2) m(2), THEN conjunct1]
  have 2: "files (snd (snd ?d))
      \<lparr>root = ''/'', segs = [''out'', ''en'', ''US'', ''JennyNeural'', ''..'', ''secret.wav'']\<rparr> = None"
    unfolding escaping_paths .
  have v: "files victim_state \<lparr>root = ''/'', segs = [''etc'', ''passwd'']\<rparr> = Some ''root''"
    "files victim_state
        \<lparr>root = ''/'', segs = [''out'', ''en'', ''US'', ''JennyNeural'', ''..'', ''secret.wav'']\<rparr>
      = Some ''secret''"
    by (simp_all add: victim_state_def)
  from v(1) escaping_outside(1) 1 v(2) 2 show ?thesis by (intro conjI)
qed



section \<open>The end of a run\<close>





text \<open>
  When the failure list is empty the run is reported as done, and the files are those the
  loop left with the current rows written to the snapshot and the settings to
  \<open>settings.json\<close>.
\<close>

lemma run_without_failures_commits:
  assumes "process_rows ex w st = Inr (current_rows, [], st1)"
  shows "fst (run ex w st) = Done
       \<and> files (snd (run ex w st))
           = (files st1)(last_csv_path_of w \<mapsto> rows_text current_rows,
                         joinpath (base_output_of w) (Path ''settings.json'')
                           \<mapsto> json_dumps ex \<lparr>pl_style = style w, pl_multiplier = speed w,
                                 pl_trailingSilence = post_silence w,
                                 pl_leadingSilence = pre_silence w\<rparr>)"
  using assms
  by (simp add: run_def run_impl_def finish_def Let_def write_rows_def write_text_def emit_def)














end
